theory Spec2Isabelle
  imports Main "HOL-Library.Word"
begin

section \<open>Ghost SDK client (client.py): commitments, nullifiers and the private balance\<close>

text \<open>
  The embedding follows \<^verbatim>\<open>packages/python/ghost_sdk/client.py\<close>. A method of
  \<^verbatim>\<open>GhostClient\<close> that can raise becomes a function returning the outcome
  (\<open>Inl\<close> the exception, \<open>Inr\<close> the returned value) together with the client object as it
  is when the method exits, so that a mutation made before a raise stays visible. Methods
  that neither raise nor assign to \<^verbatim>\<open>self\<close> are plain functions of the client.
  The calls to \<^verbatim>\<open>print\<close> are left out.

  Two things come from outside the repository and are parameters of the model:
  \<^item> \<^verbatim>\<open>hashlib.sha256(data).digest()\<close> is the parameter \<open>H\<close>;
  \<^item> the bytes returned by \<^verbatim>\<open>nacl.utils.random(32)\<close> are the parameter \<open>rnd\<close>
    of the method that draws them.
\<close>

subsection \<open>Python values\<close>

type_synonym byte = "8 word"
type_synonym bytes = "byte list"

text \<open>The exceptions the methods can raise. \<^verbatim>\<open>ValueError\<close> carries its message.\<close>

datatype error = ValueError string | OverflowError | KeyError

abbreviation InsufficientBalance :: error where
  "InsufficientBalance \<equiv> ValueError ''Insufficient balance''"

abbreviation AlreadySpent :: error where
  "AlreadySpent \<equiv> ValueError ''Commitment already spent''"

text \<open>\<^verbatim>\<open>str.encode()\<close>: a \<open>string\<close> is the list of its UTF-8 bytes.\<close>

definition encode :: "string \<Rightarrow> bytes" where
  "encode s = map of_char s"

text \<open>\<^verbatim>\<open>bytes.hex()\<close>: two lower-case hexadecimal digits per byte.\<close>

definition hex_digit :: "nat \<Rightarrow> char" where
  "hex_digit n = ''0123456789abcdef'' ! n"

definition bytes_hex :: "bytes \<Rightarrow> string" where
  "bytes_hex bs = concat (map (\<lambda>b. [hex_digit (unat b div 16), hex_digit (unat b mod 16)]) bs)"

text \<open>
  \<^verbatim>\<open>int.to_bytes(n, 'little')\<close> (unsigned): \<^verbatim>\<open>OverflowError\<close> for a negative
  integer and for one that does not fit into \<open>n\<close> bytes.
\<close>

fun to_bytes_le :: "nat \<Rightarrow> int \<Rightarrow> bytes" where
  "to_bytes_le 0 x = []"
| "to_bytes_le (Suc n) x = word_of_int (x mod 256) # to_bytes_le n (x div 256)"

definition int_to_bytes :: "int \<Rightarrow> nat \<Rightarrow> error + bytes" where
  "int_to_bytes x n = (if x < 0 \<or> 256 ^ n \<le> x then Inl OverflowError else Inr (to_bytes_le n x))"

text \<open>
  The value of a byte string read as a little-endian unsigned integer
  (\<^verbatim>\<open>int.from_bytes(bs, 'little')\<close>); used only to state what the 8 bytes of an amount are.
\<close>

fun from_bytes_le :: "bytes \<Rightarrow> int" where
  "from_bytes_le [] = 0"
| "from_bytes_le (b # bs) = uint b + 256 * from_bytes_le bs"

text \<open>
  A \<^verbatim>\<open>dict\<close> keeps its keys in insertion order: it is an association list with
  distinct keys. Assigning to a key that is present replaces the value where it stands;
  a new key goes to the end. \<^verbatim>\<open>del d[k]\<close> raises \<^verbatim>\<open>KeyError\<close> when \<open>k\<close> is absent
  (the result \<open>None\<close> here).
\<close>

type_synonym 'v pydict = "(string \<times> 'v) list"

fun dict_set :: "string \<Rightarrow> 'v \<Rightarrow> 'v pydict \<Rightarrow> 'v pydict" where
  "dict_set k v [] = [(k, v)]"
| "dict_set k v (kv # d) = (if fst kv = k then (k, v) # d else kv # dict_set k v d)"

definition dict_del :: "string \<Rightarrow> 'v pydict \<Rightarrow> 'v pydict option" where
  "dict_del k d = (if k \<in> set (map fst d) then Some (filter (\<lambda>kv. fst kv \<noteq> k) d) else None)"

definition dict_values :: "'v pydict \<Rightarrow> 'v list" where
  "dict_values d = map snd d"

subsection \<open>The client object\<close>

text \<open>
  The dictionaries built by \<^verbatim>\<open>generate_commitment\<close> (keys \<^verbatim>\<open>'value'\<close>,
  \<^verbatim>\<open>'nonce'\<close>, \<^verbatim>\<open>'amount'\<close>), by \<^verbatim>\<open>generate_nullifier\<close>
  (\<^verbatim>\<open>'value'\<close>, \<^verbatim>\<open>'commitment'\<close>) and by \<^verbatim>\<open>generate_balance_proof\<close>
  (\<^verbatim>\<open>'proof'\<close>, \<^verbatim>\<open>'public_signals'\<close>) are records; the field names carry a
  prefix because \<open>value\<close> and \<open>proof\<close> are reserved words.
\<close>

record commitment =
  c_value :: bytes
  c_nonce :: bytes
  c_amount :: int

record nullifier =
  n_value :: bytes
  n_commitment :: bytes

record balance_proof =
  bp_proof :: bytes
  bp_public_signals :: "int list"

text \<open>
  The fields of \<^verbatim>\<open>GhostClient\<close> the ledger methods read or write. The key pair is made
  by \<^verbatim>\<open>nacl.signing.SigningKey.generate()\<close>; \<open>private_key\<close> is \<^verbatim>\<open>bytes(self.private_key)\<close>
  and \<open>public_key\<close> the bytes of \<^verbatim>\<open>self.public_key\<close>. The RPC connection, the wallet and
  the program id are never used by these methods.
\<close>

record client =
  private_key :: bytes
  public_key :: bytes
  commitments :: "commitment pydict"
  nullifiers :: "string set"

definition GhostClient_init :: "bytes \<Rightarrow> bytes \<Rightarrow> client" where
  "GhostClient_init sk pk =
     \<lparr>private_key = sk, public_key = pk, commitments = [], nullifiers = {}\<rparr>"

definition get_ghost_identifier :: "client \<Rightarrow> string" where
  "get_ghost_identifier self = bytes_hex (public_key self)"

subsection \<open>The methods\<close>

definition generate_commitment ::
  "(bytes \<Rightarrow> bytes) \<Rightarrow> bytes \<Rightarrow> client \<Rightarrow> int \<Rightarrow> string \<Rightarrow> bytes option
     \<Rightarrow> (error + commitment) \<times> client" where
  "generate_commitment H rnd self amount recipient nonce =
     (let nonce' = (case nonce of None \<Rightarrow> rnd | Some n \<Rightarrow> n) in
      case int_to_bytes amount 8 of
        Inl e \<Rightarrow> (Inl e, self)
      | Inr amount_bytes \<Rightarrow>
          (Inr \<lparr>c_value = H (encode recipient @ amount_bytes @ nonce'),
                c_nonce = nonce', c_amount = amount\<rparr>, self))"

definition generate_nullifier :: "(bytes \<Rightarrow> bytes) \<Rightarrow> client \<Rightarrow> commitment \<Rightarrow> nullifier" where
  "generate_nullifier H self commitment =
     \<lparr>n_value = H (c_value commitment @ private_key self),
      n_commitment = c_value commitment\<rparr>"

definition deposit ::
  "(bytes \<Rightarrow> bytes) \<Rightarrow> bytes \<Rightarrow> client \<Rightarrow> int \<Rightarrow> (error + string) \<times> client" where
  "deposit H rnd self amount =
     (case generate_commitment H rnd self amount (get_ghost_identifier self) None of
        (Inl e, self1) \<Rightarrow> (Inl e, self1)
      | (Inr commitment, self1) \<Rightarrow>
          (let commitment_key = bytes_hex (c_value commitment) in
           (Inr ''deposit_tx_signature'',
            self1\<lparr>commitments := dict_set commitment_key commitment (commitments self1)\<rparr>)))"

text \<open>
  \<^verbatim>\<open>next((c for c in self.commitments.values() if c['amount'] >= amount), None)\<close> is
  \<open>find\<close> over the values in dictionary order. A commitment dictionary always has three
  keys, so \<^verbatim>\<open>not commitment\<close> holds for \<^verbatim>\<open>None\<close> only.
\<close>

definition withdraw ::
  "(bytes \<Rightarrow> bytes) \<Rightarrow> client \<Rightarrow> int \<Rightarrow> string \<Rightarrow> (error + string) \<times> client" where
  "withdraw H self amount recipient =
     (case find (\<lambda>c. amount \<le> c_amount c) (dict_values (commitments self)) of
        None \<Rightarrow> (Inl (ValueError ''Insufficient balance''), self)
      | Some commitment \<Rightarrow>
          (let nullifier = generate_nullifier H self commitment;
               nullifier_key = bytes_hex (n_value nullifier) in
           if nullifier_key \<in> nullifiers self
           then (Inl (ValueError ''Commitment already spent''), self)
           else
             (let self1 = self\<lparr>nullifiers := insert nullifier_key (nullifiers self)\<rparr> in
              case dict_del (bytes_hex (c_value commitment)) (commitments self1) of
                None \<Rightarrow> (Inl KeyError, self1)
              | Some d \<Rightarrow> (Inr ''withdraw_tx_signature'', self1\<lparr>commitments := d\<rparr>))))"

definition private_transfer ::
  "(bytes \<Rightarrow> bytes) \<Rightarrow> client \<Rightarrow> string \<Rightarrow> int \<Rightarrow> string option
     \<Rightarrow> (error + string) \<times> client" where
  "private_transfer H self recipient amount memo = withdraw H self amount recipient"

definition get_private_balance :: "client \<Rightarrow> int" where
  "get_private_balance self = sum_list (map c_amount (dict_values (commitments self)))"

definition generate_balance_proof :: "client \<Rightarrow> int \<Rightarrow> (error + balance_proof) \<times> client" where
  "generate_balance_proof self min_balance =
     (let actual_balance = get_private_balance self in
      if actual_balance < min_balance
      then (Inl (ValueError ''Insufficient balance''), self)
      else (Inr \<lparr>bp_proof = encode ''proof_data'', bp_public_signals = [min_balance]\<rparr>, self))"

subsection \<open>Sequences of calls\<close>

text \<open>
  A caller issues calls on one client object, one after the other; a call that raises
  leaves the object as it is at the raise and the caller goes on. A deposit carries the
  nonce its random draw returns.
\<close>

datatype op =
    Deposit int bytes
  | Withdraw int string
  | PrivateTransfer string int "string option"

fun step :: "(bytes \<Rightarrow> bytes) \<Rightarrow> client \<Rightarrow> op \<Rightarrow> (error + string) \<times> client" where
  "step H s (Deposit amount rnd) = deposit H rnd s amount"
| "step H s (Withdraw amount recipient) = withdraw H s amount recipient"
| "step H s (PrivateTransfer recipient amount memo) = private_transfer H s recipient amount memo"

fun run :: "(bytes \<Rightarrow> bytes) \<Rightarrow> client \<Rightarrow> op list \<Rightarrow> client" where
  "run H s [] = s"
| "run H s (x # xs) = run H (snd (step H s x)) xs"

text \<open>The hexadecimal key under which \<open>withdraw\<close> records the nullifier of a commitment.\<close>

definition nullifier_key :: "(bytes \<Rightarrow> bytes) \<Rightarrow> client \<Rightarrow> commitment \<Rightarrow> string" where
  "nullifier_key H self c = bytes_hex (n_value (generate_nullifier H self c))"

text \<open>
  What holds of the dictionary of a client that only its own methods have touched: every
  commitment is stored under the hexadecimal form of its value, and its amount went
  through \<open>int_to_bytes\<close>. (Distinct keys are what a \<^verbatim>\<open>dict\<close> is.)
\<close>

definition wf_client :: "client \<Rightarrow> bool" where
  "wf_client s \<longleftrightarrow>
     distinct (map fst (commitments s)) \<and>
     list_all (\<lambda>kv. fst kv = bytes_hex (c_value (snd kv)) \<and>
                    0 \<le> c_amount (snd kv) \<and> c_amount (snd kv) < 2 ^ 64) (commitments s)"

text \<open>No open commitment has its nullifier among the spent ones.\<close>

definition unspent :: "(bytes \<Rightarrow> bytes) \<Rightarrow> client \<Rightarrow> bool" where
  "unspent H s \<longleftrightarrow> list_all (\<lambda>kv. nullifier_key H s (snd kv) \<notin> nullifiers s) (commitments s)"

text \<open>
  The nullifier keys of the commitments that the deposits of a sequence of calls create,
  in order. That they are pairwise distinct says that, during these calls, no random
  nonce came twice with the same amount and the hash did not collide.
\<close>

fun deposit_nullifiers :: "(bytes \<Rightarrow> bytes) \<Rightarrow> client \<Rightarrow> op list \<Rightarrow> string list" where
  "deposit_nullifiers H s [] = []"
| "deposit_nullifiers H s (Deposit amount rnd # xs) =
     (case fst (generate_commitment H rnd s amount (get_ghost_identifier s) None) of
        Inl e \<Rightarrow> deposit_nullifiers H s xs
      | Inr c \<Rightarrow> nullifier_key H s c # deposit_nullifiers H s xs)"
| "deposit_nullifiers H s (x # xs) = deposit_nullifiers H s xs"

definition no_collision :: "(bytes \<Rightarrow> bytes) \<Rightarrow> client \<Rightarrow> op list \<Rightarrow> bool" where
  "no_collision H s xs \<longleftrightarrow> distinct (deposit_nullifiers H s xs)"

subsection \<open>Concrete values for the examples\<close>

text \<open>
  A collision-free function in the place of the hash, a key pair and two nonces of 32
  bytes each.
\<close>

definition H0 :: "bytes \<Rightarrow> bytes" where
  "H0 bs = bs"

definition sk0 :: bytes where
  "sk0 = replicate 32 7"

definition pk0 :: bytes where
  "pk0 = replicate 32 9"

definition nonce1 :: bytes where
  "nonce1 = replicate 32 1"

definition nonce2 :: bytes where
  "nonce2 = replicate 32 2"

definition client0 :: client where
  "client0 = GhostClient_init sk0 pk0"

subsection \<open>Encodings\<close>

lemma hex_digit_inj: "i < 16 \<Longrightarrow> j < 16 \<Longrightarrow> hex_digit i = hex_digit j \<Longrightarrow> i = j"
proof -
  assume ij: "i < 16" "j < 16" and eq: "hex_digit i = hex_digit j"
  have d: "distinct ''0123456789abcdef''" by simp
  have l: "length ''0123456789abcdef'' = 16" by simp
  from nth_eq_iff_index_eq [OF d] ij l eq show "i = j"
    unfolding hex_digit_def by metis
qed

lemma bytes_hex_Nil: "bytes_hex [] = []"
  by (simp add: bytes_hex_def)

lemma bytes_hex_Cons:
  "bytes_hex (b # bs) = hex_digit (unat b div 16) # hex_digit (unat b mod 16) # bytes_hex bs"
  by (simp add: bytes_hex_def)

lemma byte_nibbles_eq:
  fixes b b' :: byte
  assumes "hex_digit (unat b div 16) = hex_digit (unat b' div 16)"
    and "hex_digit (unat b mod 16) = hex_digit (unat b' mod 16)"
  shows "b = b'"
proof -
  have lt: "unat b < 256" "unat b' < 256"
    using unsigned_less [of b, where ?'a = nat] unsigned_less [of b', where ?'a = nat] by simp_all
  then have "unat b div 16 < 16" "unat b' div 16 < 16" by simp_all
  with assms(1) have hi: "unat b div 16 = unat b' div 16" by (rule_tac hex_digit_inj)
  have "unat b mod 16 < 16" "unat b' mod 16 < 16" by simp_all
  with assms(2) have lo: "unat b mod 16 = unat b' mod 16" by (rule_tac hex_digit_inj)
  have "unat b = 16 * (unat b div 16) + unat b mod 16" by simp
  also have "\<dots> = 16 * (unat b' div 16) + unat b' mod 16" using hi lo by simp
  also have "\<dots> = unat b'" by simp
  finally show ?thesis by (simp add: word_unat_eq_iff)
qed

lemma bytes_hex_inj: "bytes_hex xs = bytes_hex ys \<Longrightarrow> xs = ys"
proof (induction xs arbitrary: ys)
  case Nil
  then show ?case by (cases ys) (simp_all add: bytes_hex_Nil bytes_hex_Cons)
next
  case (Cons x xs)
  show ?case
  proof (cases ys)
    case Nil
    with Cons.prems show ?thesis by (simp add: bytes_hex_Nil bytes_hex_Cons)
  next
    case (Cons y ys')
    with Cons.prems have "x = y" and "bytes_hex xs = bytes_hex ys'"
      by (auto simp: bytes_hex_Cons intro: byte_nibbles_eq)
    with Cons.IH Cons show ?thesis by simp
  qed
qed

lemma length_to_bytes_le: "length (to_bytes_le n x) = n"
  by (induction n arbitrary: x) simp_all

lemma from_bytes_to_bytes_le:
  "0 \<le> x \<Longrightarrow> x < 256 ^ n \<Longrightarrow> from_bytes_le (to_bytes_le n x) = x"
proof (induction n arbitrary: x)
  case 0
  then show ?case by simp
next
  case (Suc n)
  have b: "uint (word_of_int (x mod 256) :: byte) = x mod 256"
    by (simp add: uint_word_of_int take_bit_eq_mod)
  from Suc.prems have "0 \<le> x div 256" "x div 256 < 256 ^ n"
    by (simp_all add: pos_imp_zdiv_nonneg_iff)
  with Suc.IH have "from_bytes_le (to_bytes_le n (x div 256)) = x div 256" by simp
  with b show ?case by simp
qed

subsection \<open>Dictionaries and the commitment methods\<close>

lemma dict_set_fresh: "k \<notin> set (map fst d) \<Longrightarrow> dict_set k v d = d @ [(k, v)]"
  by (induction d) auto

lemma dict_set_keys: "k \<in> set (map fst d) \<Longrightarrow> map fst (dict_set k v d) = map fst d"
  by (induction d) auto

lemma map_of_dict_set: "map_of (dict_set k v d) = (map_of d)(k \<mapsto> v)"
  by (induction d) (auto simp: fun_eq_iff)

lemma sum_list_filter_key:
  "distinct (map fst d) \<Longrightarrow> (k, c) \<in> set d \<Longrightarrow>
   sum_list (map f (map snd (filter (\<lambda>kv. fst kv \<noteq> k) d))) = sum_list (map f (map snd d)) - (f c :: int)"
proof (induction d)
  case Nil
  then show ?case by simp
next
  case (Cons kv d)
  show ?case
  proof (cases "fst kv = k")
    case True
    with Cons.prems have c: "snd kv = c" by (cases kv) (auto simp: image_iff)
    from True Cons.prems have "k \<notin> fst ` set d" by simp
    then have "filter (\<lambda>kv. fst kv \<noteq> k) d = d" by (auto simp: filter_id_conv image_iff)
    with True c show ?thesis by simp
  next
    case False
    with Cons.prems have "(k, c) \<in> set d" by auto
    with Cons.IH Cons.prems False show ?thesis by simp
  qed
qed

lemma find_SomeD: "find P xs = Some x \<Longrightarrow> x \<in> set xs \<and> P x"
  by (auto simp: find_Some_iff)

lemma find_first:
  "find P xs = Some x \<longleftrightarrow> (\<exists>ys zs. xs = ys @ x # zs \<and> P x \<and> (\<forall>y\<in>set ys. \<not> P y))"
proof (induction xs)
  case Nil
  then show ?case by simp
next
  case (Cons a xs)
  show ?case
  proof (cases "P a")
    case True
    have "(\<exists>ys zs. a # xs = ys @ x # zs \<and> P x \<and> (\<forall>y\<in>set ys. \<not> P y)) \<longleftrightarrow> a = x"
    proof
      assume "\<exists>ys zs. a # xs = ys @ x # zs \<and> P x \<and> (\<forall>y\<in>set ys. \<not> P y)"
      then obtain ys zs where e: "a # xs = ys @ x # zs" and n: "\<forall>y\<in>set ys. \<not> P y" by blast
      show "a = x"
      proof (cases ys)
        case Nil
        with e show ?thesis by simp
      next
        case (Cons y ys')
        with e n True show ?thesis by simp
      qed
    next
      assume "a = x"
      with True have "a # xs = [] @ x # xs \<and> P x \<and> (\<forall>y\<in>set []. \<not> P y)" by simp
      then show "\<exists>ys zs. a # xs = ys @ x # zs \<and> P x \<and> (\<forall>y\<in>set ys. \<not> P y)" by blast
    qed
    with True show ?thesis by simp
  next
    case False
    have "(\<exists>ys zs. a # xs = ys @ x # zs \<and> P x \<and> (\<forall>y\<in>set ys. \<not> P y)) \<longleftrightarrow>
          (\<exists>ys zs. xs = ys @ x # zs \<and> P x \<and> (\<forall>y\<in>set ys. \<not> P y))"
    proof
      assume "\<exists>ys zs. a # xs = ys @ x # zs \<and> P x \<and> (\<forall>y\<in>set ys. \<not> P y)"
      then obtain ys zs where e: "a # xs = ys @ x # zs" and p: "P x" and n: "\<forall>y\<in>set ys. \<not> P y"
        by blast
      show "\<exists>ys zs. xs = ys @ x # zs \<and> P x \<and> (\<forall>y\<in>set ys. \<not> P y)"
      proof (cases ys)
        case Nil
        with e p False show ?thesis by simp
      next
        case (Cons y ys')
        with e n p have "xs = ys' @ x # zs \<and> P x \<and> (\<forall>y\<in>set ys'. \<not> P y)" by simp
        then show ?thesis by blast
      qed
    next
      assume "\<exists>ys zs. xs = ys @ x # zs \<and> P x \<and> (\<forall>y\<in>set ys. \<not> P y)"
      then obtain ys zs where "xs = ys @ x # zs" "P x" "\<forall>y\<in>set ys. \<not> P y" by blast
      with False have "a # xs = (a # ys) @ x # zs \<and> P x \<and> (\<forall>y\<in>set (a # ys). \<not> P y)" by simp
      then show "\<exists>ys zs. a # xs = ys @ x # zs \<and> P x \<and> (\<forall>y\<in>set ys. \<not> P y)" by blast
    qed
    with False Cons.IH show ?thesis by simp
  qed
qed

lemma generate_commitment_ok:
  "0 \<le> amount \<Longrightarrow> amount < 2 ^ 64 \<Longrightarrow>
   generate_commitment H rnd s amount recipient nonce =
     (Inr \<lparr>c_value = H (encode recipient @ to_bytes_le 8 amount @ (case nonce of None \<Rightarrow> rnd | Some n \<Rightarrow> n)),
           c_nonce = (case nonce of None \<Rightarrow> rnd | Some n \<Rightarrow> n), c_amount = amount\<rparr>, s)"
  by (simp add: generate_commitment_def int_to_bytes_def Let_def)

lemma generate_commitment_overflow:
  "amount < 0 \<or> 2 ^ 64 \<le> amount \<Longrightarrow>
   generate_commitment H rnd s amount recipient nonce = (Inl OverflowError, s)"
  by (auto simp: generate_commitment_def int_to_bytes_def Let_def)

lemma generate_commitment_cases:
  "generate_commitment H rnd s amount recipient nonce =
     (if 0 \<le> amount \<and> amount < 2 ^ 64
      then (Inr \<lparr>c_value = H (encode recipient @ to_bytes_le 8 amount @ (case nonce of None \<Rightarrow> rnd | Some n \<Rightarrow> n)),
           c_nonce = (case nonce of None \<Rightarrow> rnd | Some n \<Rightarrow> n), c_amount = amount\<rparr>, s)
      else (Inl OverflowError, s))"
  using generate_commitment_ok [of amount H rnd s recipient nonce]
    generate_commitment_overflow [of amount H rnd s recipient nonce]
  by (cases "0 \<le> amount \<and> amount < 2 ^ 64") auto

lemma deposit_cases:
  "deposit H rnd s amount =
     (if 0 \<le> amount \<and> amount < 2 ^ 64
      then (Inr ''deposit_tx_signature'',
            s\<lparr>commitments :=
                dict_set (bytes_hex (H (encode (get_ghost_identifier s) @ to_bytes_le 8 amount @ rnd)))
                  \<lparr>c_value = H (encode (get_ghost_identifier s) @ to_bytes_le 8 amount @ rnd),
                   c_nonce = rnd, c_amount = amount\<rparr> (commitments s)\<rparr>)
      else (Inl OverflowError, s))"
  by (simp add: deposit_def generate_commitment_cases Let_def)

subsection \<open>Withdrawal and well-formed clients\<close>

lemma nullifier_key_eq: "nullifier_key H s c = bytes_hex (H (c_value c @ private_key s))"
  by (simp add: nullifier_key_def generate_nullifier_def)

lemma nullifier_key_cong:
  "private_key s = private_key t \<Longrightarrow> c_value c = c_value c' \<Longrightarrow>
   nullifier_key H s c = nullifier_key H t c'"
  by (simp add: nullifier_key_eq)

lemma withdraw_cases:
  "withdraw H s amount recipient =
     (case find (\<lambda>c. amount \<le> c_amount c) (dict_values (commitments s)) of
        None \<Rightarrow> (Inl InsufficientBalance, s)
      | Some c \<Rightarrow>
          if nullifier_key H s c \<in> nullifiers s then (Inl AlreadySpent, s)
          else if bytes_hex (c_value c) \<in> set (map fst (commitments s))
          then (Inr ''withdraw_tx_signature'',
                s\<lparr>nullifiers := insert (nullifier_key H s c) (nullifiers s),
                  commitments := filter (\<lambda>kv. fst kv \<noteq> bytes_hex (c_value c)) (commitments s)\<rparr>)
          else (Inl KeyError, s\<lparr>nullifiers := insert (nullifier_key H s c) (nullifiers s)\<rparr>))"
  by (simp add: withdraw_def nullifier_key_def dict_del_def Let_def split: option.splits)

lemma wf_client_key:
  "wf_client s \<Longrightarrow> (k, c) \<in> set (commitments s) \<Longrightarrow> k = bytes_hex (c_value c)"
  by (auto simp: wf_client_def list_all_iff)

lemma wf_client_amount:
  "wf_client s \<Longrightarrow> (k, c) \<in> set (commitments s) \<Longrightarrow> 0 \<le> c_amount c \<and> c_amount c < 2 ^ 64"
  by (auto simp: wf_client_def list_all_iff)

lemma found_in_dict:
  "find P (dict_values (commitments s)) = Some c \<Longrightarrow> \<exists>k. (k, c) \<in> set (commitments s)"
proof -
  assume "find P (dict_values (commitments s)) = Some c"
  then have "c \<in> snd ` set (commitments s)"
    by (auto simp: dict_values_def dest: find_SomeD)
  then show ?thesis by force
qed

lemma wf_found_key:
  assumes "wf_client s" and "find P (dict_values (commitments s)) = Some c"
  shows "(bytes_hex (c_value c), c) \<in> set (commitments s)"
proof -
  from found_in_dict [OF assms(2)] obtain k where "(k, c) \<in> set (commitments s)" ..
  with wf_client_key [OF assms(1)] show ?thesis by blast
qed

lemma withdraw_wf_cases:
  assumes "wf_client s"
  shows "withdraw H s amount recipient =
     (case find (\<lambda>c. amount \<le> c_amount c) (dict_values (commitments s)) of
        None \<Rightarrow> (Inl InsufficientBalance, s)
      | Some c \<Rightarrow>
          if nullifier_key H s c \<in> nullifiers s then (Inl AlreadySpent, s)
          else (Inr ''withdraw_tx_signature'',
                s\<lparr>nullifiers := insert (nullifier_key H s c) (nullifiers s),
                  commitments := filter (\<lambda>kv. fst kv \<noteq> bytes_hex (c_value c)) (commitments s)\<rparr>))"
proof (cases "find (\<lambda>c. amount \<le> c_amount c) (dict_values (commitments s))")
  case None
  then show ?thesis by (simp add: withdraw_cases)
next
  case (Some c)
  from wf_found_key [OF assms Some] have "bytes_hex (c_value c) \<in> set (map fst (commitments s))"
    by force
  with Some show ?thesis by (simp add: withdraw_cases)
qed

lemma wf_client_init: "wf_client (GhostClient_init sk pk)"
  by (simp add: wf_client_def GhostClient_init_def)

lemma dict_set_distinct: "distinct (map fst d) \<Longrightarrow> distinct (map fst (dict_set k v d))"
proof (cases "k \<in> set (map fst d)")
  case True
  assume "distinct (map fst d)"
  with True show ?thesis by (simp add: dict_set_keys)
next
  case False
  assume "distinct (map fst d)"
  with False show ?thesis by (simp add: dict_set_fresh)
qed

lemma dict_set_set: "set (dict_set k v d) \<subseteq> insert (k, v) (set d)"
  by (induction d) auto

lemma wf_client_deposit: "wf_client s \<Longrightarrow> wf_client (snd (deposit H rnd s amount))"
proof -
  assume wf: "wf_client s"
  show ?thesis
  proof (cases "0 \<le> amount \<and> amount < 2 ^ 64")
    case False
    with wf show ?thesis by (auto simp: deposit_cases)
  next
    case True
    let ?c = "\<lparr>c_value = H (encode (get_ghost_identifier s) @ to_bytes_le 8 amount @ rnd),
               c_nonce = rnd, c_amount = amount\<rparr>"
    let ?k = "bytes_hex (c_value ?c)"
    have d: "distinct (map fst (dict_set ?k ?c (commitments s)))"
      using wf by (simp only: dict_set_distinct wf_client_def)
    have "\<forall>kv \<in> set (dict_set ?k ?c (commitments s)).
            fst kv = bytes_hex (c_value (snd kv)) \<and> 0 \<le> c_amount (snd kv) \<and> c_amount (snd kv) < 2 ^ 64"
    proof
      fix kv assume "kv \<in> set (dict_set ?k ?c (commitments s))"
      with dict_set_set have "kv = (?k, ?c) \<or> kv \<in> set (commitments s)" by fastforce
      then show "fst kv = bytes_hex (c_value (snd kv)) \<and> 0 \<le> c_amount (snd kv) \<and> c_amount (snd kv) < 2 ^ 64"
      proof
        assume "kv = (?k, ?c)"
        with True show ?thesis by simp
      next
        assume "kv \<in> set (commitments s)"
        with wf show ?thesis by (simp add: wf_client_def list_all_iff)
      qed
    qed
    with d True show ?thesis
      by (simp add: deposit_cases wf_client_def list_all_iff)
  qed
qed

lemma wf_client_withdraw: "wf_client s \<Longrightarrow> wf_client (snd (withdraw H s amount recipient))"
  by (auto simp: withdraw_wf_cases wf_client_def list_all_iff distinct_map_filter
           split: option.splits)

lemma wf_client_step: "wf_client s \<Longrightarrow> wf_client (snd (step H s x))"
  by (cases x) (simp_all add: wf_client_deposit wf_client_withdraw private_transfer_def)

lemma wf_client_run: "wf_client s \<Longrightarrow> wf_client (run H s xs)"
  by (induction xs arbitrary: s) (simp_all add: wf_client_step)

lemma step_private_key: "private_key (snd (step H s x)) = private_key s"
  by (cases x) (simp_all add: deposit_cases withdraw_cases private_transfer_def split: option.splits)

lemma step_public_key: "public_key (snd (step H s x)) = public_key s"
  by (cases x) (simp_all add: deposit_cases withdraw_cases private_transfer_def split: option.splits)

lemma run_private_key: "private_key (run H s xs) = private_key s"
  by (induction xs arbitrary: s) (simp_all add: step_private_key)

lemma run_public_key: "public_key (run H s xs) = public_key s"
  by (induction xs arbitrary: s) (simp_all add: step_public_key)

lemma step_nullifiers_mono: "nullifiers s \<subseteq> nullifiers (snd (step H s x))"
  by (cases x) (auto simp: deposit_cases withdraw_cases private_transfer_def split: option.splits)

lemma run_nullifiers_mono: "nullifiers s \<subseteq> nullifiers (run H s xs)"
proof (induction xs arbitrary: s)
  case Nil
  show ?case by simp
next
  case (Cons x xs)
  have "nullifiers s \<subseteq> nullifiers (snd (step H s x))" by (rule step_nullifiers_mono)
  also have "\<dots> \<subseteq> nullifiers (run H (snd (step H s x)) xs)" by (rule Cons.IH)
  finally show ?case by simp
qed

subsection \<open>Invariants of a sequence of calls\<close>

lemma nullifier_key_step: "nullifier_key H (snd (step H s x)) c = nullifier_key H s c"
  by (simp add: nullifier_key_eq step_private_key)

lemma nullifier_key_run: "nullifier_key H (run H s xs) c = nullifier_key H s c"
  by (simp add: nullifier_key_eq run_private_key)

lemma deposit_nullifiers_cong:
  "private_key s = private_key t \<Longrightarrow> public_key s = public_key t \<Longrightarrow>
   deposit_nullifiers H s xs = deposit_nullifiers H t xs"
proof (induction xs)
  case Nil
  show ?case by simp
next
  case (Cons x xs)
  then show ?case
    by (cases x)
       (simp_all add: generate_commitment_cases get_ghost_identifier_def nullifier_key_eq)
qed

lemma deposit_nullifiers_step:
  "deposit_nullifiers H (snd (step H s x)) xs = deposit_nullifiers H s xs"
  by (rule deposit_nullifiers_cong) (simp_all add: step_private_key step_public_key)

lemma deposit_nullifiers_append:
  "deposit_nullifiers H s (xs @ ys) = deposit_nullifiers H s xs @ deposit_nullifiers H s ys"
proof (induction xs)
  case Nil
  show ?case by simp
next
  case (Cons x xs)
  then show ?case by (cases x) (simp_all split: sum.splits)
qed

text \<open>The four facts that go through a run together.\<close>

lemma deposit_step_invariant:
  assumes wf: "wf_client s" and un: "unspent H s"
    and di: "distinct (map (\<lambda>kv. nullifier_key H s (snd kv)) (commitments s)
                       @ deposit_nullifiers H s (Deposit amount rnd # xs))"
    and dj: "nullifiers s \<inter> set (deposit_nullifiers H s (Deposit amount rnd # xs)) = {}"
  shows "unspent H (snd (deposit H rnd s amount)) \<and>
         distinct (map (\<lambda>kv. nullifier_key H s (snd kv)) (commitments (snd (deposit H rnd s amount)))
                   @ deposit_nullifiers H s xs) \<and>
         nullifiers (snd (deposit H rnd s amount)) \<inter> set (deposit_nullifiers H s xs) = {}"
proof (cases "0 \<le> amount \<and> amount < 2 ^ 64")
  case False
  then have "deposit H rnd s amount = (Inl OverflowError, s)"
    by (auto simp: deposit_cases)
  moreover from False have "deposit_nullifiers H s (Deposit amount rnd # xs) = deposit_nullifiers H s xs"
    by (auto simp: generate_commitment_cases)
  ultimately show ?thesis using un di dj by simp
next
  case True
  define c where "c = \<lparr>c_value = H (encode (get_ghost_identifier s) @ to_bytes_le 8 amount @ rnd),
                       c_nonce = rnd, c_amount = amount\<rparr>"
  define k where "k = bytes_hex (c_value c)"
  from True have dn: "deposit_nullifiers H s (Deposit amount rnd # xs)
                       = nullifier_key H s c # deposit_nullifiers H s xs"
    by (simp add: generate_commitment_cases c_def)
  have fresh: "k \<notin> set (map fst (commitments s))"
  proof
    assume "k \<in> set (map fst (commitments s))"
    then obtain c' where in': "(k, c') \<in> set (commitments s)" by auto
    with wf have "k = bytes_hex (c_value c')" by (rule wf_client_key)
    then have "c_value c' = c_value c" unfolding k_def by (simp add: bytes_hex_inj)
    then have "nullifier_key H s c' = nullifier_key H s c" by (simp add: nullifier_key_eq)
    moreover from in' have "nullifier_key H s c' \<in> set (map (\<lambda>kv. nullifier_key H s (snd kv)) (commitments s))"
      by force
    ultimately show False using di unfolding dn by auto
  qed
  from True have dep: "deposit H rnd s amount =
      (Inr ''deposit_tx_signature'', s\<lparr>commitments := commitments s @ [(k, c)]\<rparr>)"
    using dict_set_fresh [OF fresh, of c] by (simp add: deposit_cases c_def k_def)
  have nk: "\<And>c'. nullifier_key H (s\<lparr>commitments := commitments s @ [(k, c)]\<rparr>) c' = nullifier_key H s c'"
    by (simp add: nullifier_key_eq)
  from dj have "nullifier_key H s c \<notin> nullifiers s" unfolding dn by simp
  with un have 1: "unspent H (snd (deposit H rnd s amount))"
    by (simp add: dep unspent_def nk)
  from di have 2: "distinct (map (\<lambda>kv. nullifier_key H s (snd kv)) (commitments (snd (deposit H rnd s amount)))
                   @ deposit_nullifiers H s xs)"
    unfolding dn by (simp add: dep)
  from dj have 3: "nullifiers (snd (deposit H rnd s amount)) \<inter> set (deposit_nullifiers H s xs) = {}"
    unfolding dn by (simp add: dep)
  from 1 2 3 show ?thesis by blast
qed

lemma withdraw_step_invariant:
  assumes wf: "wf_client s" and un: "unspent H s"
    and di: "distinct (map (\<lambda>kv. nullifier_key H s (snd kv)) (commitments s) @ ns)"
    and dj: "nullifiers s \<inter> set ns = {}"
  shows "unspent H (snd (withdraw H s amount recipient)) \<and>
         distinct (map (\<lambda>kv. nullifier_key H s (snd kv)) (commitments (snd (withdraw H s amount recipient)))
                   @ ns) \<and>
         nullifiers (snd (withdraw H s amount recipient)) \<inter> set ns = {}"
proof (cases "find (\<lambda>c. amount \<le> c_amount c) (dict_values (commitments s))")
  case None
  then have "withdraw H s amount recipient = (Inl InsufficientBalance, s)"
    by (simp add: withdraw_cases)
  with un di dj show ?thesis by simp
next
  case (Some c)
  show ?thesis
  proof (cases "nullifier_key H s c \<in> nullifiers s")
    case True
    with Some have "withdraw H s amount recipient = (Inl AlreadySpent, s)"
      by (simp add: withdraw_cases)
    with un di dj show ?thesis by simp
  next
    case False
    define s' where "s' = s\<lparr>nullifiers := insert (nullifier_key H s c) (nullifiers s),
                  commitments := filter (\<lambda>kv. fst kv \<noteq> bytes_hex (c_value c)) (commitments s)\<rparr>"
    from Some False have w: "withdraw H s amount recipient = (Inr ''withdraw_tx_signature'', s')"
      by (simp add: withdraw_wf_cases [OF wf] s'_def)
    have inc: "(bytes_hex (c_value c), c) \<in> set (commitments s)"
      using wf Some by (rule wf_found_key)
    have nk: "\<And>c'. nullifier_key H s' c' = nullifier_key H s c'"
      by (simp add: nullifier_key_eq s'_def)
    from di have inj: "inj_on (\<lambda>kv. nullifier_key H s (snd kv)) (set (commitments s))"
      by (simp add: distinct_map)
    have 1: "unspent H s'"
      unfolding unspent_def list_all_iff
    proof
      fix kv assume "kv \<in> set (commitments s')"
      then have kv: "kv \<in> set (commitments s)" and ne: "fst kv \<noteq> bytes_hex (c_value c)"
        by (simp_all add: s'_def)
      from ne have "kv \<noteq> (bytes_hex (c_value c), c)" by auto
      with inj_onD [OF inj _ kv inc] have "nullifier_key H s (snd kv) \<noteq> nullifier_key H s c"
        by auto
      moreover from un kv have "nullifier_key H s (snd kv) \<notin> nullifiers s"
        by (simp add: unspent_def list_all_iff)
      ultimately show "nullifier_key H s' (snd kv) \<notin> nullifiers s'"
        by (simp add: nk) (simp add: s'_def)
    qed
    from di have 2: "distinct (map (\<lambda>kv. nullifier_key H s (snd kv)) (commitments s') @ ns)"
      by (auto simp: s'_def distinct_map_filter)
    from inc have "nullifier_key H s c \<in> set (map (\<lambda>kv. nullifier_key H s (snd kv)) (commitments s))"
      by force
    with di have "nullifier_key H s c \<notin> set ns" by auto
    with dj have 3: "nullifiers s' \<inter> set ns = {}" by (simp add: s'_def)
    from 1 2 3 show ?thesis by (simp add: w)
  qed
qed

lemma step_invariant:
  assumes wf: "wf_client s" and un: "unspent H s"
    and di: "distinct (map (\<lambda>kv. nullifier_key H s (snd kv)) (commitments s)
                       @ deposit_nullifiers H s (x # xs))"
    and dj: "nullifiers s \<inter> set (deposit_nullifiers H s (x # xs)) = {}"
  shows "unspent H (snd (step H s x)) \<and>
         distinct (map (\<lambda>kv. nullifier_key H s (snd kv)) (commitments (snd (step H s x)))
                   @ deposit_nullifiers H s xs) \<and>
         nullifiers (snd (step H s x)) \<inter> set (deposit_nullifiers H s xs) = {}"
proof (cases x)
  case (Deposit amount rnd)
  show ?thesis
    unfolding Deposit step.simps
    using wf un di [unfolded Deposit] dj [unfolded Deposit]
    by (rule deposit_step_invariant)
next
  case (Withdraw amount recipient)
  show ?thesis
    unfolding Withdraw step.simps
    using wf un di [unfolded Withdraw deposit_nullifiers.simps]
      dj [unfolded Withdraw deposit_nullifiers.simps]
    by (rule withdraw_step_invariant)
next
  case (PrivateTransfer recipient amount memo)
  show ?thesis
    unfolding PrivateTransfer step.simps private_transfer_def
    using wf un di [unfolded PrivateTransfer deposit_nullifiers.simps]
      dj [unfolded PrivateTransfer deposit_nullifiers.simps]
    by (rule withdraw_step_invariant)
qed

lemma run_invariant:
  assumes "wf_client s" and "unspent H s"
    and "distinct (map (\<lambda>kv. nullifier_key H s (snd kv)) (commitments s) @ deposit_nullifiers H s xs)"
    and "nullifiers s \<inter> set (deposit_nullifiers H s xs) = {}"
  shows "unspent H (run H s xs)"
  using assms
proof (induction xs arbitrary: s)
  case Nil
  then show ?case by simp
next
  case (Cons x xs)
  let ?s = "snd (step H s x)"
  from step_invariant [OF Cons.prems]
  have un: "unspent H ?s"
    and di: "distinct (map (\<lambda>kv. nullifier_key H s (snd kv)) (commitments ?s) @ deposit_nullifiers H s xs)"
    and dj: "nullifiers ?s \<inter> set (deposit_nullifiers H s xs) = {}"
    by blast+
  have wf: "wf_client ?s" using Cons.prems(1) by (rule wf_client_step)
  have nk: "(\<lambda>kv. nullifier_key H ?s (snd kv)) = (\<lambda>kv. nullifier_key H s (snd kv))"
    by (simp add: nullifier_key_step)
  have "unspent H (run H ?s xs)"
    using wf un
  proof (rule Cons.IH)
    show "distinct (map (\<lambda>kv. nullifier_key H ?s (snd kv)) (commitments ?s) @ deposit_nullifiers H ?s xs)"
      using di by (simp only: nk deposit_nullifiers_step)
    show "nullifiers ?s \<inter> set (deposit_nullifiers H ?s xs) = {}"
      using dj by (simp only: deposit_nullifiers_step)
  qed
  then show ?case by simp
qed

lemma reachable_unspent:
  "no_collision H (GhostClient_init sk pk) xs \<Longrightarrow> unspent H (run H (GhostClient_init sk pk) xs)"
proof (rule run_invariant)
  show "wf_client (GhostClient_init sk pk)" by (rule wf_client_init)
  show "unspent H (GhostClient_init sk pk)" by (simp add: unspent_def GhostClient_init_def)
  show "nullifiers (GhostClient_init sk pk) \<inter> set (deposit_nullifiers H (GhostClient_init sk pk) xs) = {}"
    by (simp add: GhostClient_init_def)
  assume "no_collision H (GhostClient_init sk pk) xs"
  then show "distinct (map (\<lambda>kv. nullifier_key H (GhostClient_init sk pk) (snd kv))
                         (commitments (GhostClient_init sk pk))
                       @ deposit_nullifiers H (GhostClient_init sk pk) xs)"
    by (simp add: no_collision_def) (simp add: GhostClient_init_def)
qed

lemma filter_remove_key:
  "distinct (map fst d) \<Longrightarrow> d = d1 @ (k, c) # d2 \<Longrightarrow> filter (\<lambda>kv. fst kv \<noteq> k) d = d1 @ d2"
proof -
  assume di: "distinct (map fst d)" and d: "d = d1 @ (k, c) # d2"
  from di d have "\<forall>x\<in>set d1. fst x \<noteq> k" and "\<forall>x\<in>set d2. fst x \<noteq> k"
    by auto
  then have "filter (\<lambda>kv. fst kv \<noteq> k) d1 = d1" and "filter (\<lambda>kv. fst kv \<noteq> k) d2 = d2"
    by (simp_all only: filter_True)
  with d show ?thesis by simp
qed

lemma run_append: "run H s (xs @ ys) = run H (run H s xs) ys"
  by (induction xs arbitrary: s) simp_all

text \<open>
  Whatever the hash, a commitment that was spent and is then created again by a deposit of
  the same amount with the same nonce is open while its nullifier is recorded.
\<close>

lemma redeposit_reopens:
  assumes "0 \<le> a" and "a < 2 ^ 64"
  shows "\<not> unspent H (run H (GhostClient_init sk pk) [Deposit a n, Withdraw a r, Deposit a n])"
proof -
  define c where "c = \<lparr>c_value = H (encode (bytes_hex pk) @ to_bytes_le 8 a @ n),
                       c_nonce = n, c_amount = a\<rparr>"
  define k where "k = bytes_hex (c_value c)"
  define s0 where "s0 = GhostClient_init sk pk"
  define s1 where "s1 = s0\<lparr>commitments := [(k, c)]\<rparr>"
  define s2 where "s2 = s0\<lparr>nullifiers := {nullifier_key H s0 c}\<rparr>"
  define s3 where "s3 = s2\<lparr>commitments := [(k, c)]\<rparr>"
  from assms have d1: "deposit H n s0 a = (Inr ''deposit_tx_signature'', s1)"
    by (simp add: deposit_cases s0_def s1_def c_def k_def GhostClient_init_def get_ghost_identifier_def)
  have w: "withdraw H s1 a r = (Inr ''withdraw_tx_signature'', s2)"
    by (simp add: withdraw_cases dict_values_def nullifier_key_eq s1_def s2_def s0_def
          c_def k_def GhostClient_init_def)
  from assms have d2: "deposit H n s2 a = (Inr ''deposit_tx_signature'', s3)"
    by (simp add: deposit_cases s0_def s2_def s3_def c_def k_def GhostClient_init_def
          get_ghost_identifier_def)
  have "run H s0 [Deposit a n, Withdraw a r, Deposit a n] = s3"
    by (simp add: d1 w d2)
  moreover have "\<not> unspent H s3"
    by (simp add: unspent_def nullifier_key_eq s3_def s2_def s0_def GhostClient_init_def)
  ultimately show ?thesis by (simp add: s0_def)
qed

section \<open>The claims\<close>

subsection \<open>C8: the threshold of the balance proof\<close>

text \<open>
  C8. \<open>generate_balance_proof\<close> with minimum \<open>B\<close> returns a proof exactly when the private
  balance is at least \<open>B\<close> and raises \<^verbatim>\<open>ValueError("Insufficient balance")\<close> exactly when
  the balance is below \<open>B\<close>. For a balance \<open>T\<close> it succeeds at \<open>B = T\<close> (with public
  signal \<open>T\<close>) and fails at \<open>B = T + 1\<close>. The client is not changed.
\<close>

theorem balance_proof_threshold:
  "((\<exists>p. fst (generate_balance_proof s B) = Inr p) \<longleftrightarrow> B \<le> get_private_balance s) \<and>
   (fst (generate_balance_proof s B) = Inl InsufficientBalance \<longleftrightarrow> get_private_balance s < B) \<and>
   fst (generate_balance_proof s (get_private_balance s))
     = Inr \<lparr>bp_proof = encode ''proof_data'', bp_public_signals = [get_private_balance s]\<rparr> \<and>
   fst (generate_balance_proof s (get_private_balance s + 1)) = Inl InsufficientBalance \<and>
   snd (generate_balance_proof s B) = s"
  by (simp add: generate_balance_proof_def Let_def not_less)

theorem balance_proof_threshold_witness:
  "fst (generate_balance_proof (run H0 client0 [Deposit 1000000000 nonce1, Deposit 500000000 nonce2])
          1500000000)
     = Inr \<lparr>bp_proof = encode ''proof_data'', bp_public_signals = [1500000000]\<rparr> \<and>
   fst (generate_balance_proof (run H0 client0 [Deposit 1000000000 nonce1, Deposit 500000000 nonce2])
          1500000001)
     = Inl InsufficientBalance"
proof -
  have b: "get_private_balance (run H0 client0 [Deposit 1000000000 nonce1, Deposit 500000000 nonce2])
             = 1500000000"
    by code_simp
  from balance_proof_threshold
         [of "run H0 client0 [Deposit 1000000000 nonce1, Deposit 500000000 nonce2]" 0]
  show ?thesis unfolding b by simp
qed

subsection \<open>C9: a failing withdrawal changes nothing\<close>

text \<open>
  C9. When \<open>withdraw\<close> raises "Insufficient balance" or "Commitment already spent", the
  client (open commitments and spent nullifiers) is as before the call. For a well-formed
  client these two are the only ways in which \<open>withdraw\<close> fails, so every failure comes
  before any assignment.
\<close>

theorem withdraw_failure_atomic:
  "(fst (withdraw H s amount recipient) = Inl InsufficientBalance \<or>
    fst (withdraw H s amount recipient) = Inl AlreadySpent
      \<longrightarrow> snd (withdraw H s amount recipient) = s) \<and>
   (wf_client s \<longrightarrow>
      (\<forall>e. fst (withdraw H s amount recipient) = Inl e
            \<longrightarrow> (e = InsufficientBalance \<or> e = AlreadySpent) \<and>
                snd (withdraw H s amount recipient) = s))"
proof
  show "fst (withdraw H s amount recipient) = Inl InsufficientBalance \<or>
        fst (withdraw H s amount recipient) = Inl AlreadySpent
          \<longrightarrow> snd (withdraw H s amount recipient) = s"
    by (simp add: withdraw_cases split: option.splits)
  show "wf_client s \<longrightarrow>
      (\<forall>e. fst (withdraw H s amount recipient) = Inl e
            \<longrightarrow> (e = InsufficientBalance \<or> e = AlreadySpent) \<and>
                snd (withdraw H s amount recipient) = s)"
  proof
    assume "wf_client s"
    then show "\<forall>e. fst (withdraw H s amount recipient) = Inl e
            \<longrightarrow> (e = InsufficientBalance \<or> e = AlreadySpent) \<and>
                snd (withdraw H s amount recipient) = s"
      by (simp add: withdraw_wf_cases split: option.splits)
  qed
qed

theorem withdraw_failure_atomic_witness:
  "fst (withdraw H0 client0 5 ''recipient'') = Inl InsufficientBalance \<and>
   snd (withdraw H0 client0 5 ''recipient'') = client0 \<and>
   wf_client (run H0 client0
       [Deposit 1000000000 nonce1, Withdraw 1000000000 ''recipient'', Deposit 1000000000 nonce1]) \<and>
   fst (withdraw H0 (run H0 client0
       [Deposit 1000000000 nonce1, Withdraw 1000000000 ''recipient'', Deposit 1000000000 nonce1])
       1000000000 ''recipient'') = Inl AlreadySpent \<and>
   snd (withdraw H0 (run H0 client0
       [Deposit 1000000000 nonce1, Withdraw 1000000000 ''recipient'', Deposit 1000000000 nonce1])
       1000000000 ''recipient'')
     = run H0 client0
       [Deposit 1000000000 nonce1, Withdraw 1000000000 ''recipient'', Deposit 1000000000 nonce1]"
proof -
  let ?s = "run H0 client0
       [Deposit 1000000000 nonce1, Withdraw 1000000000 ''recipient'', Deposit 1000000000 nonce1]"
  have a: "fst (withdraw H0 client0 5 ''recipient'') = Inl InsufficientBalance"
    by code_simp
  have b: "fst (withdraw H0 ?s 1000000000 ''recipient'') = Inl AlreadySpent"
    by code_simp
  have w: "wf_client ?s"
    unfolding client0_def by (rule wf_client_run) (rule wf_client_init)
  from a withdraw_failure_atomic [of H0 client0 5 "''recipient''"]
  have "snd (withdraw H0 client0 5 ''recipient'') = client0" by blast
  moreover from b w withdraw_failure_atomic [of H0 ?s 1000000000 "''recipient''"]
  have "snd (withdraw H0 ?s 1000000000 ''recipient'') = ?s" by blast
  ultimately show ?thesis using a b w by blast
qed

subsection \<open>C4: amounts accepted by \<open>generate_commitment\<close>\<close>

text \<open>
  C4 (as the code has it). \<open>generate_commitment\<close> has no check that the amount is
  positive: it returns a commitment for every amount from \<open>0\<close> up to \<open>2^64 - 1\<close>, zero
  included, and raises \<^verbatim>\<open>OverflowError\<close> (from the 8-byte encoding) for a negative
  amount and for one of \<open>2^64\<close> or more. The client is not changed.
\<close>

theorem generate_commitment_amount_range:
  "(0 \<le> amount \<and> amount < 2 ^ 64 \<longrightarrow>
      (\<exists>c. generate_commitment H rnd s amount recipient nonce = (Inr c, s) \<and> c_amount c = amount)) \<and>
   (amount < 0 \<or> 2 ^ 64 \<le> amount \<longrightarrow>
      generate_commitment H rnd s amount recipient nonce = (Inl OverflowError, s))"
  by (auto simp: generate_commitment_cases)

theorem generate_commitment_amount_range_witness:
  "(\<exists>c. generate_commitment H0 nonce1 client0 0 (get_ghost_identifier client0) None = (Inr c, client0)
        \<and> c_amount c = 0) \<and>
   generate_commitment H0 nonce1 client0 (- 1) (get_ghost_identifier client0) None
     = (Inl OverflowError, client0) \<and>
   generate_commitment H0 nonce1 client0 (2 ^ 64) (get_ghost_identifier client0) None
     = (Inl OverflowError, client0)"
  using generate_commitment_amount_range [of 0 H0 nonce1 client0 "get_ghost_identifier client0" None]
    generate_commitment_amount_range [of "- 1" H0 nonce1 client0 "get_ghost_identifier client0" None]
    generate_commitment_amount_range [of "2 ^ 64" H0 nonce1 client0 "get_ghost_identifier client0" None]
  by simp

text \<open>
  Amount \<open>0\<close> is not rejected: the call returns a commitment of amount \<open>0\<close>.
\<close>

theorem generate_commitment_zero_amount_counterexample:
  "generate_commitment H0 nonce1 client0 0 (get_ghost_identifier client0) None
     = (Inr \<lparr>c_value = H0 (encode (get_ghost_identifier client0) @ to_bytes_le 8 0 @ nonce1),
             c_nonce = nonce1, c_amount = 0\<rparr>, client0)"
  by (simp add: generate_commitment_cases)

subsection \<open>C7: the commitment is a function of recipient, amount and nonce\<close>

text \<open>
  C7. For an amount that fits 8 bytes and a given nonce, \<open>generate_commitment\<close> returns
  the commitment whose value is the hash of the recipient's bytes, followed by the 8 bytes
  of the amount (little-endian: read back with \<open>from_bytes_le\<close> they give the amount),
  followed by the nonce. The result does not depend on the client or on the random source,
  and the client is returned unchanged.
\<close>

theorem commit_deterministic:
  assumes "0 \<le> amount" and "amount < 2 ^ 64"
  shows "generate_commitment H rnd s amount recipient (Some nonce)
           = (Inr \<lparr>c_value = H (encode recipient @ to_bytes_le 8 amount @ nonce),
                   c_nonce = nonce, c_amount = amount\<rparr>, s) \<and>
         length (to_bytes_le 8 amount) = 8 \<and>
         from_bytes_le (to_bytes_le 8 amount) = amount \<and>
         fst (generate_commitment H rnd' s' amount recipient (Some nonce))
           = fst (generate_commitment H rnd s amount recipient (Some nonce))"
proof -
  from assms have "amount < 256 ^ 8" by simp
  with assms(1) have "from_bytes_le (to_bytes_le 8 amount) = amount"
    by (rule from_bytes_to_bytes_le)
  with assms show ?thesis
    by (simp add: generate_commitment_cases length_to_bytes_le)
qed

theorem commit_deterministic_witness:
  "generate_commitment H0 nonce2 client0 1000000000 (get_ghost_identifier client0) (Some nonce1)
     = (Inr \<lparr>c_value = H0 (encode (get_ghost_identifier client0) @ to_bytes_le 8 1000000000 @ nonce1),
             c_nonce = nonce1, c_amount = 1000000000\<rparr>, client0) \<and>
   from_bytes_le (to_bytes_le 8 1000000000) = 1000000000 \<and>
   to_bytes_le 8 1000000000 = [0, 202, 154, 59, 0, 0, 0, 0]"
proof -
  have le: "to_bytes_le 8 1000000000 = [0, 202, 154, 59, 0, 0, 0, 0]" by code_simp
  have "(0::int) \<le> 1000000000" and "(1000000000::int) < 2 ^ 64" by simp_all
  from commit_deterministic [OF this, of H0 nonce2 client0 "get_ghost_identifier client0" nonce1]
  show ?thesis using le by simp
qed

subsection \<open>C3: what \<open>deposit\<close> does with a key that is present\<close>

text \<open>
  C3 (as the code has it). \<open>deposit\<close> has no check for a key that is already in the
  dictionary and never fails for that reason. For an amount that fits 8 bytes it returns
  "deposit_tx_signature" and stores the new commitment under the hexadecimal form of its
  value: afterwards that key holds the new commitment and every other key holds what it
  held before. When the key was present the entry is overwritten where it stands (the keys
  and their order stay); when it was absent the entry is added at the end.
\<close>

theorem deposit_overwrites:
  assumes "0 \<le> amount" and "amount < 2 ^ 64"
    and c: "c = \<lparr>c_value = H (encode (get_ghost_identifier s) @ to_bytes_le 8 amount @ rnd),
                 c_nonce = rnd, c_amount = amount\<rparr>"
    and k: "k = bytes_hex (c_value c)"
  shows "deposit H rnd s amount
           = (Inr ''deposit_tx_signature'', s\<lparr>commitments := dict_set k c (commitments s)\<rparr>) \<and>
         map_of (dict_set k c (commitments s)) k = Some c \<and>
         (\<forall>k'. k' \<noteq> k \<longrightarrow> map_of (dict_set k c (commitments s)) k' = map_of (commitments s) k') \<and>
         (k \<in> set (map fst (commitments s))
            \<longrightarrow> map fst (dict_set k c (commitments s)) = map fst (commitments s)) \<and>
         (k \<notin> set (map fst (commitments s))
            \<longrightarrow> dict_set k c (commitments s) = commitments s @ [(k, c)])"
proof -
  from assms have "deposit H rnd s amount
           = (Inr ''deposit_tx_signature'', s\<lparr>commitments := dict_set k c (commitments s)\<rparr>)"
    by (simp add: deposit_cases)
  moreover have "map_of (dict_set k c (commitments s)) k = Some c"
    by (simp add: map_of_dict_set)
  moreover have "\<forall>k'. k' \<noteq> k \<longrightarrow> map_of (dict_set k c (commitments s)) k' = map_of (commitments s) k'"
    by (simp add: map_of_dict_set)
  moreover have "k \<in> set (map fst (commitments s))
            \<longrightarrow> map fst (dict_set k c (commitments s)) = map fst (commitments s)"
    using dict_set_keys [of k "commitments s" c] by blast
  moreover have "k \<notin> set (map fst (commitments s))
            \<longrightarrow> dict_set k c (commitments s) = commitments s @ [(k, c)]"
    using dict_set_fresh [of k "commitments s" c] by blast
  ultimately show ?thesis by blast
qed

theorem deposit_overwrites_witness:
  "deposit H0 nonce1 (snd (deposit H0 nonce1 client0 1000000000)) 1000000000
     = (Inr ''deposit_tx_signature'', snd (deposit H0 nonce1 client0 1000000000)) \<and>
   commitments (snd (deposit H0 nonce2 (snd (deposit H0 nonce1 client0 1000000000)) 500000000))
     = commitments (snd (deposit H0 nonce1 client0 1000000000))
       @ [(bytes_hex (H0 (encode (get_ghost_identifier client0) @ to_bytes_le 8 500000000 @ nonce2)),
           \<lparr>c_value = H0 (encode (get_ghost_identifier client0) @ to_bytes_le 8 500000000 @ nonce2),
            c_nonce = nonce2, c_amount = 500000000\<rparr>)]"
proof -
  let ?s = "snd (deposit H0 nonce1 client0 1000000000)"
  let ?c1 = "\<lparr>c_value = H0 (encode (get_ghost_identifier ?s) @ to_bytes_le 8 1000000000 @ nonce1),
             c_nonce = nonce1, c_amount = 1000000000\<rparr>"
  let ?c2 = "\<lparr>c_value = H0 (encode (get_ghost_identifier ?s) @ to_bytes_le 8 500000000 @ nonce2),
             c_nonce = nonce2, c_amount = 500000000\<rparr>"
  have id: "get_ghost_identifier ?s = get_ghost_identifier client0"
    by (simp add: deposit_cases get_ghost_identifier_def)
  have r1: "(0::int) \<le> 1000000000" "(1000000000::int) < 2 ^ 64"
    and r2: "(0::int) \<le> 500000000" "(500000000::int) < 2 ^ 64" by simp_all
  have old: "bytes_hex (c_value ?c1) \<in> set (map fst (commitments ?s))"
    by code_simp
  have new: "bytes_hex (c_value ?c2) \<notin> set (map fst (commitments ?s))"
    by code_simp
  have same: "dict_set (bytes_hex (c_value ?c1)) ?c1 (commitments ?s) = commitments ?s"
    by code_simp
  from deposit_overwrites [OF r1 refl refl, where H = H0 and s = ?s and rnd = nonce1] old same
  have 1: "deposit H0 nonce1 ?s 1000000000 = (Inr ''deposit_tx_signature'', ?s)"
    by simp
  from deposit_overwrites [OF r2 refl refl, where H = H0 and s = ?s and rnd = nonce2] new
  have 2: "commitments (snd (deposit H0 nonce2 ?s 500000000))
             = commitments ?s @ [(bytes_hex (c_value ?c2), ?c2)]"
    by simp
  from 1 2 show ?thesis unfolding id by simp
qed

text \<open>
  Depositing the same amount with the same nonce a second time finds its key in the
  dictionary and still returns normally.
\<close>

theorem deposit_existing_key_counterexample:
  "bytes_hex (H0 (encode (get_ghost_identifier client0) @ to_bytes_le 8 1000000000 @ nonce1))
     \<in> set (map fst (commitments (snd (deposit H0 nonce1 client0 1000000000)))) \<and>
   fst (deposit H0 nonce1 (snd (deposit H0 nonce1 client0 1000000000)) 1000000000)
     = Inr ''deposit_tx_signature''"
  by code_simp

subsection \<open>C6: first fit in dictionary order\<close>

text \<open>
  C6. \<open>withdraw\<close> raises "Insufficient balance" exactly when no open commitment has an amount
  of at least the requested one, whatever the sum of the amounts. When it succeeds on a
  well-formed client, the commitment it takes is the first one in dictionary order whose
  amount is at least the requested one: the values before it are all too small, its
  nullifier key is the one added, and the values left are those before and after it,
  unchanged and with nothing added (no change commitment).
\<close>

theorem withdraw_first_fit:
  "(fst (withdraw H s X recipient) = Inl InsufficientBalance
      \<longleftrightarrow> (\<forall>d \<in> set (dict_values (commitments s)). c_amount d < X)) \<and>
   (wf_client s \<longrightarrow>
      (\<forall>sig. fst (withdraw H s X recipient) = Inr sig \<longrightarrow>
         (\<exists>pre c post.
            dict_values (commitments s) = pre @ c # post \<and>
            (\<forall>d \<in> set pre. c_amount d < X) \<and> X \<le> c_amount c \<and>
            nullifiers (snd (withdraw H s X recipient))
              = insert (nullifier_key H s c) (nullifiers s) \<and>
            dict_values (commitments (snd (withdraw H s X recipient))) = pre @ post)))"
proof
  show "fst (withdraw H s X recipient) = Inl InsufficientBalance
      \<longleftrightarrow> (\<forall>d \<in> set (dict_values (commitments s)). c_amount d < X)"
  proof (cases "find (\<lambda>c. X \<le> c_amount c) (dict_values (commitments s))")
    case None
    then have "\<forall>d \<in> set (dict_values (commitments s)). c_amount d < X"
      by (auto simp: find_None_iff not_le)
    with None show ?thesis by (simp add: withdraw_cases)
  next
    case (Some c)
    then have "c \<in> set (dict_values (commitments s)) \<and> X \<le> c_amount c"
      by (rule find_SomeD)
    then have "\<not> (\<forall>d \<in> set (dict_values (commitments s)). c_amount d < X)"
      by force
    with Some show ?thesis by (simp add: withdraw_cases)
  qed
  show "wf_client s \<longrightarrow>
      (\<forall>sig. fst (withdraw H s X recipient) = Inr sig \<longrightarrow>
         (\<exists>pre c post.
            dict_values (commitments s) = pre @ c # post \<and>
            (\<forall>d \<in> set pre. c_amount d < X) \<and> X \<le> c_amount c \<and>
            nullifiers (snd (withdraw H s X recipient))
              = insert (nullifier_key H s c) (nullifiers s) \<and>
            dict_values (commitments (snd (withdraw H s X recipient))) = pre @ post))"
  proof (intro impI allI)
    fix sig
    assume wf: "wf_client s" and ok: "fst (withdraw H s X recipient) = Inr sig"
    from ok obtain c where f: "find (\<lambda>c. X \<le> c_amount c) (dict_values (commitments s)) = Some c"
      by (cases "find (\<lambda>c. X \<le> c_amount c) (dict_values (commitments s))")
         (simp_all add: withdraw_cases)
    from ok f have ns: "nullifier_key H s c \<notin> nullifiers s"
      by (auto simp: withdraw_cases split: if_splits)
    from f ns have w: "snd (withdraw H s X recipient) =
        s\<lparr>nullifiers := insert (nullifier_key H s c) (nullifiers s),
          commitments := filter (\<lambda>kv. fst kv \<noteq> bytes_hex (c_value c)) (commitments s)\<rparr>"
      by (simp add: withdraw_wf_cases [OF wf])
    from f obtain pre post where v: "dict_values (commitments s) = pre @ c # post"
      and p: "X \<le> c_amount c" and n: "\<forall>d \<in> set pre. \<not> X \<le> c_amount d"
      unfolding find_first by blast
    from v obtain d1 kv d2 where d: "commitments s = d1 @ kv # d2"
      and m: "map snd d1 = pre" "snd kv = c" "map snd d2 = post"
      unfolding dict_values_def by (auto simp: map_eq_append_conv map_eq_Cons_conv)
    from d have "(fst kv, snd kv) \<in> set (commitments s)" by simp
    with wf m have "fst kv = bytes_hex (c_value c)" by (auto dest: wf_client_key)
    with d m have d': "commitments s = d1 @ (bytes_hex (c_value c), c) # d2"
      by (cases kv) simp
    from wf have "distinct (map fst (commitments s))" by (simp add: wf_client_def)
    from filter_remove_key [OF this d']
    have "dict_values (commitments (snd (withdraw H s X recipient))) = pre @ post"
      by (simp add: w dict_values_def m)
    moreover from n have "\<forall>d \<in> set pre. c_amount d < X" by (simp add: not_le)
    moreover have "nullifiers (snd (withdraw H s X recipient))
                     = insert (nullifier_key H s c) (nullifiers s)"
      by (simp add: w)
    ultimately show "\<exists>pre c post.
            dict_values (commitments s) = pre @ c # post \<and>
            (\<forall>d \<in> set pre. c_amount d < X) \<and> X \<le> c_amount c \<and>
            nullifiers (snd (withdraw H s X recipient))
              = insert (nullifier_key H s c) (nullifiers s) \<and>
            dict_values (commitments (snd (withdraw H s X recipient))) = pre @ post"
      using v p by blast
  qed
qed

theorem withdraw_first_fit_witness:
  "get_private_balance (run H0 client0 [Deposit 1000000000 nonce1, Deposit 500000000 nonce2])
     = 1500000000 \<and>
   fst (withdraw H0 (run H0 client0 [Deposit 1000000000 nonce1, Deposit 500000000 nonce2])
          1200000000 ''recipient'') = Inl InsufficientBalance \<and>
   (\<exists>pre c post.
      dict_values (commitments (run H0 client0 [Deposit 500000000 nonce2, Deposit 1000000000 nonce1]))
        = pre @ c # post \<and>
      (\<forall>d \<in> set pre. c_amount d < 800000000) \<and> 800000000 \<le> c_amount c \<and>
      nullifiers (snd (withdraw H0
          (run H0 client0 [Deposit 500000000 nonce2, Deposit 1000000000 nonce1])
          800000000 ''recipient''))
        = insert (nullifier_key H0
            (run H0 client0 [Deposit 500000000 nonce2, Deposit 1000000000 nonce1]) c)
            (nullifiers (run H0 client0 [Deposit 500000000 nonce2, Deposit 1000000000 nonce1])) \<and>
      dict_values (commitments (snd (withdraw H0
          (run H0 client0 [Deposit 500000000 nonce2, Deposit 1000000000 nonce1])
          800000000 ''recipient''))) = pre @ post)"
proof -
  let ?s = "run H0 client0 [Deposit 1000000000 nonce1, Deposit 500000000 nonce2]"
  let ?t = "run H0 client0 [Deposit 500000000 nonce2, Deposit 1000000000 nonce1]"
  have b: "get_private_balance ?s = 1500000000" by code_simp
  have small: "\<forall>d \<in> set (dict_values (commitments ?s)). c_amount d < 1200000000"
    by code_simp
  have wf: "wf_client ?t"
    unfolding client0_def by (rule wf_client_run) (rule wf_client_init)
  have ok: "fst (withdraw H0 ?t 800000000 ''recipient'') = Inr ''withdraw_tx_signature''"
    by code_simp
  from small withdraw_first_fit [of H0 ?s 1200000000 "''recipient''"]
  have 1: "fst (withdraw H0 ?s 1200000000 ''recipient'') = Inl InsufficientBalance"
    by blast
  from wf ok withdraw_first_fit [of H0 ?t 800000000 "''recipient''"]
  have 2: "\<exists>pre c post.
      dict_values (commitments ?t) = pre @ c # post \<and>
      (\<forall>d \<in> set pre. c_amount d < 800000000) \<and> 800000000 \<le> c_amount c \<and>
      nullifiers (snd (withdraw H0 ?t 800000000 ''recipient''))
        = insert (nullifier_key H0 ?t c) (nullifiers ?t) \<and>
      dict_values (commitments (snd (withdraw H0 ?t 800000000 ''recipient''))) = pre @ post"
    by blast
  from b 1 2 show ?thesis by blast
qed

subsection \<open>C5: what a successful withdrawal changes\<close>

text \<open>
  C5 (as the code has it). When \<open>withdraw\<close> succeeds on a well-formed client, there is a
  selected commitment \<open>c\<close> (the first fit): its nullifier key was not recorded and is
  recorded now, the entry of \<open>c\<close> is removed from the open commitments and nothing else is,
  and the private balance is smaller by exactly the amount of \<open>c\<close>, whatever amount was
  requested. The value returned is the fixed string "withdraw_tx_signature"; it carries
  neither the nullifier nor the commitment.
\<close>

theorem withdraw_success_effects:
  assumes wf: "wf_client s" and w: "withdraw H s amount recipient = (Inr sig, s')"
  shows "\<exists>c. find (\<lambda>c. amount \<le> c_amount c) (dict_values (commitments s)) = Some c \<and>
           nullifier_key H s c \<notin> nullifiers s \<and>
           nullifiers s' = insert (nullifier_key H s c) (nullifiers s) \<and>
           (bytes_hex (c_value c), c) \<in> set (commitments s) \<and>
           commitments s' = filter (\<lambda>kv. fst kv \<noteq> bytes_hex (c_value c)) (commitments s) \<and>
           set (commitments s') = set (commitments s) - {(bytes_hex (c_value c), c)} \<and>
           c \<notin> set (dict_values (commitments s')) \<and>
           get_private_balance s' = get_private_balance s - c_amount c \<and>
           sig = ''withdraw_tx_signature''"
proof -
  from w obtain c where f: "find (\<lambda>c. amount \<le> c_amount c) (dict_values (commitments s)) = Some c"
    by (cases "find (\<lambda>c. amount \<le> c_amount c) (dict_values (commitments s))")
       (simp_all add: withdraw_cases)
  from w f have ns: "nullifier_key H s c \<notin> nullifiers s"
    by (auto simp: withdraw_cases split: if_splits)
  let ?k = "bytes_hex (c_value c)"
  from w f ns have s': "s' = s\<lparr>nullifiers := insert (nullifier_key H s c) (nullifiers s),
          commitments := filter (\<lambda>kv. fst kv \<noteq> ?k) (commitments s)\<rparr>"
    and sig: "sig = ''withdraw_tx_signature''"
    by (simp_all add: withdraw_wf_cases [OF wf])
  have inc: "(?k, c) \<in> set (commitments s)" using wf f by (rule wf_found_key)
  from wf have di: "distinct (map fst (commitments s))" by (simp add: wf_client_def)
  have only: "\<And>kv. kv \<in> set (commitments s) \<Longrightarrow> fst kv = ?k \<Longrightarrow> kv = (?k, c)"
  proof -
    fix kv assume "kv \<in> set (commitments s)" and "fst kv = ?k"
    with inc di show "kv = (?k, c)"
      by (metis eq_key_imp_eq_value prod.collapse)
  qed
  have st: "set (commitments s') = set (commitments s) - {(?k, c)}"
  proof
    show "set (commitments s') \<subseteq> set (commitments s) - {(?k, c)}"
      by (auto simp: s')
    show "set (commitments s) - {(?k, c)} \<subseteq> set (commitments s')"
      using only by (auto simp: s')
  qed
  have gone: "c \<notin> set (dict_values (commitments s'))"
  proof
    assume "c \<in> set (dict_values (commitments s'))"
    then obtain k' where k': "(k', c) \<in> set (commitments s')"
      by (auto simp: dict_values_def)
    with st have "(k', c) \<in> set (commitments s)" by blast
    with wf have "k' = ?k" by (rule wf_client_key)
    with k' show False by (simp add: s')
  qed
  have bal: "get_private_balance s' = get_private_balance s - c_amount c"
    using sum_list_filter_key [OF di inc, of c_amount]
    by (simp add: get_private_balance_def dict_values_def s')
  from f ns inc st gone bal sig show ?thesis
    by (intro exI [of _ c]) (simp add: s')
qed

theorem withdraw_success_effects_witness:
  "get_private_balance (snd (withdraw H0
       (run H0 client0 [Deposit 1000000000 nonce1, Deposit 500000000 nonce2])
       300000000 ''recipient''))
     = get_private_balance (run H0 client0 [Deposit 1000000000 nonce1, Deposit 500000000 nonce2])
       - 1000000000"
proof -
  let ?s = "run H0 client0 [Deposit 1000000000 nonce1, Deposit 500000000 nonce2]"
  let ?c = "\<lparr>c_value = H0 (encode (get_ghost_identifier client0) @ to_bytes_le 8 1000000000 @ nonce1),
            c_nonce = nonce1, c_amount = 1000000000\<rparr>"
  have wf: "wf_client ?s"
    unfolding client0_def by (rule wf_client_run) (rule wf_client_init)
  have ok: "withdraw H0 ?s 300000000 ''recipient''
              = (fst (withdraw H0 ?s 300000000 ''recipient''),
                 snd (withdraw H0 ?s 300000000 ''recipient''))"
    by simp
  have r: "fst (withdraw H0 ?s 300000000 ''recipient'') = Inr ''withdraw_tx_signature''"
    by code_simp
  have f: "find (\<lambda>c. 300000000 \<le> c_amount c) (dict_values (commitments ?s)) = Some ?c"
    by code_simp
  from withdraw_success_effects [OF wf ok [unfolded r]] f
  show ?thesis by auto
qed

text \<open>
  Two withdrawals that consume different commitments and record different nullifiers
  return the same value.
\<close>

theorem withdraw_returns_constant_counterexample:
  "fst (withdraw H0 (run H0 client0 [Deposit 1000000000 nonce1]) 300000000 ''recipient'')
     = Inr ''withdraw_tx_signature'' \<and>
   fst (withdraw H0 (run H0 client0 [Deposit 500000000 nonce2]) 300000000 ''recipient'')
     = Inr ''withdraw_tx_signature'' \<and>
   nullifiers (snd (withdraw H0 (run H0 client0 [Deposit 1000000000 nonce1]) 300000000 ''recipient''))
     \<noteq> nullifiers (snd (withdraw H0 (run H0 client0 [Deposit 500000000 nonce2]) 300000000 ''recipient'')) \<and>
   dict_values (commitments (run H0 client0 [Deposit 1000000000 nonce1]))
     \<noteq> dict_values (commitments (run H0 client0 [Deposit 500000000 nonce2]))"
  by code_simp

subsection \<open>C2: two deposits and a withdrawal\<close>

text \<open>
  C2 (as the code has it). On a new client, deposits of 1_000_000_000 and then 500_000_000
  whose commitment values differ give a private balance of 1_500_000_000. A withdrawal of
  500_000_000 then succeeds and takes the first commitment in insertion order that is
  large enough, which is the one of 1_000_000_000: the commitment of 500_000_000 stays and
  the balance is 500_000_000. After that a withdrawal of 2_000_000_000 raises
  "Insufficient balance" and changes nothing.
\<close>

theorem deposit_withdraw_scenario:
  assumes ne: "H (encode (bytes_hex pk) @ to_bytes_le 8 1000000000 @ n1)
                 \<noteq> H (encode (bytes_hex pk) @ to_bytes_le 8 500000000 @ n2)"
    and s2: "s2 = run H (GhostClient_init sk pk) [Deposit 1000000000 n1, Deposit 500000000 n2]"
    and s3: "s3 = snd (withdraw H s2 500000000 recipient)"
  shows "get_private_balance s2 = 1500000000 \<and>
         fst (withdraw H s2 500000000 recipient) = Inr ''withdraw_tx_signature'' \<and>
         find (\<lambda>c. 500000000 \<le> c_amount c) (dict_values (commitments s2))
           = Some \<lparr>c_value = H (encode (bytes_hex pk) @ to_bytes_le 8 1000000000 @ n1),
                   c_nonce = n1, c_amount = 1000000000\<rparr> \<and>
         dict_values (commitments s3)
           = [\<lparr>c_value = H (encode (bytes_hex pk) @ to_bytes_le 8 500000000 @ n2),
               c_nonce = n2, c_amount = 500000000\<rparr>] \<and>
         get_private_balance s3 = 500000000 \<and>
         withdraw H s3 2000000000 recipient' = (Inl InsufficientBalance, s3)"
proof -
  define v1 where "v1 = H (encode (bytes_hex pk) @ to_bytes_le 8 1000000000 @ n1)"
  define v2 where "v2 = H (encode (bytes_hex pk) @ to_bytes_le 8 500000000 @ n2)"
  define c1 where "c1 = \<lparr>c_value = v1, c_nonce = n1, c_amount = 1000000000\<rparr>"
  define c2 where "c2 = \<lparr>c_value = v2, c_nonce = n2, c_amount = 500000000\<rparr>"
  from ne have "v1 \<noteq> v2" by (simp add: v1_def v2_def)
  then have k: "bytes_hex v1 \<noteq> bytes_hex v2" using bytes_hex_inj by blast
  have c2s: "commitments s2 = [(bytes_hex v1, c1), (bytes_hex v2, c2)]"
    and n2s: "nullifiers s2 = {}"
    using k unfolding s2
    by (simp_all add: deposit_cases GhostClient_init_def get_ghost_identifier_def
          v1_def v2_def c1_def c2_def)
  have b2: "get_private_balance s2 = 1500000000"
    by (simp add: get_private_balance_def dict_values_def c2s c1_def c2_def)
  have f: "find (\<lambda>c. 500000000 \<le> c_amount c) (dict_values (commitments s2)) = Some c1"
    by (simp add: dict_values_def c2s c1_def)
  have w: "withdraw H s2 500000000 recipient =
      (Inr ''withdraw_tx_signature'',
       s2\<lparr>nullifiers := insert (nullifier_key H s2 c1) (nullifiers s2),
          commitments := filter (\<lambda>kv. fst kv \<noteq> bytes_hex (c_value c1)) (commitments s2)\<rparr>)"
    using f by (simp add: withdraw_cases n2s) (simp add: c2s c1_def)
  have c3s: "commitments s3 = [(bytes_hex v2, c2)]"
    using k by (simp add: s3 w c2s c1_def)
  have b3: "get_private_balance s3 = 500000000"
    by (simp add: get_private_balance_def dict_values_def c3s c2_def)
  have w3: "withdraw H s3 2000000000 recipient' = (Inl InsufficientBalance, s3)"
    by (simp add: withdraw_cases dict_values_def c3s c2_def)
  from b2 w f c3s b3 w3 show ?thesis
    by (simp add: dict_values_def c1_def c2_def v1_def v2_def)
qed

theorem deposit_withdraw_scenario_witness:
  "get_private_balance (run H0 client0 [Deposit 1000000000 nonce1, Deposit 500000000 nonce2])
     = 1500000000 \<and>
   fst (withdraw H0 (run H0 client0 [Deposit 1000000000 nonce1, Deposit 500000000 nonce2])
          500000000 ''recipient'') = Inr ''withdraw_tx_signature'' \<and>
   get_private_balance (snd (withdraw H0
       (run H0 client0 [Deposit 1000000000 nonce1, Deposit 500000000 nonce2])
       500000000 ''recipient'')) = 500000000 \<and>
   fst (withdraw H0 (snd (withdraw H0
       (run H0 client0 [Deposit 1000000000 nonce1, Deposit 500000000 nonce2])
       500000000 ''recipient'')) 2000000000 ''recipient'') = Inl InsufficientBalance"
proof -
  have ne: "H0 (encode (bytes_hex pk0) @ to_bytes_le 8 1000000000 @ nonce1)
              \<noteq> H0 (encode (bytes_hex pk0) @ to_bytes_le 8 500000000 @ nonce2)"
    by code_simp
  from deposit_withdraw_scenario [OF ne refl refl, of sk0 "''recipient''" "''recipient''"]
  show ?thesis unfolding client0_def by simp
qed

text \<open>
  After the withdrawal of 500_000_000 the balance is not 1_000_000_000: what is left is the
  commitment of 500_000_000.
\<close>

theorem scenario_balance_counterexample:
  "get_private_balance (snd (withdraw H0
       (run H0 client0 [Deposit 1000000000 nonce1, Deposit 500000000 nonce2])
       500000000 ''recipient'')) \<noteq> 1000000000 \<and>
   map c_amount (dict_values (commitments (snd (withdraw H0
       (run H0 client0 [Deposit 1000000000 nonce1, Deposit 500000000 nonce2])
       500000000 ''recipient'')))) = [500000000]"
  by code_simp

subsection \<open>C10: withdrawing the amount zero\<close>

text \<open>
  C10 (as the code has it). On a well-formed client with at least one open commitment,
  \<open>withdraw\<close> with amount \<open>0\<close> selects the first commitment of the dictionary; no check
  on the amount fails. If the nullifier of that commitment is not recorded, the call
  succeeds, records it, removes the commitment and lowers the balance by its whole amount.
  If that nullifier is recorded already, the call raises "Commitment already spent" and
  changes nothing. The first case is the only one when no open commitment is spent
  (\<open>unspent\<close>), as in every state reached without a collision.
\<close>

theorem withdraw_zero_amount:
  assumes wf: "wf_client s" and cs: "commitments s = (k, c) # rest"
  shows "find (\<lambda>c. 0 \<le> c_amount c) (dict_values (commitments s)) = Some c \<and>
         (nullifier_key H s c \<notin> nullifiers s \<longrightarrow>
            withdraw H s 0 recipient
              = (Inr ''withdraw_tx_signature'',
                 s\<lparr>nullifiers := insert (nullifier_key H s c) (nullifiers s),
                   commitments := rest\<rparr>) \<and>
            get_private_balance (snd (withdraw H s 0 recipient))
              = get_private_balance s - c_amount c) \<and>
         (nullifier_key H s c \<in> nullifiers s \<longrightarrow>
            withdraw H s 0 recipient = (Inl AlreadySpent, s)) \<and>
         (unspent H s \<longrightarrow> nullifier_key H s c \<notin> nullifiers s)"
proof -
  from wf cs have k: "k = bytes_hex (c_value c)" and a: "0 \<le> c_amount c"
    using wf_client_key [of s k c] wf_client_amount [of s k c] by simp_all
  from a have f: "find (\<lambda>c. 0 \<le> c_amount c) (dict_values (commitments s)) = Some c"
    by (simp add: dict_values_def cs)
  from wf have "distinct (map fst (commitments s))" by (simp add: wf_client_def)
  from filter_remove_key [OF this, of "[]" k c rest] cs
  have r: "filter (\<lambda>kv. fst kv \<noteq> bytes_hex (c_value c)) (commitments s) = rest"
    by (simp add: k)
  have ok: "nullifier_key H s c \<notin> nullifiers s \<longrightarrow>
            withdraw H s 0 recipient
              = (Inr ''withdraw_tx_signature'',
                 s\<lparr>nullifiers := insert (nullifier_key H s c) (nullifiers s),
                   commitments := rest\<rparr>) \<and>
            get_private_balance (snd (withdraw H s 0 recipient))
              = get_private_balance s - c_amount c"
  proof
    assume ns: "nullifier_key H s c \<notin> nullifiers s"
    with f r have w: "withdraw H s 0 recipient
           = (Inr ''withdraw_tx_signature'',
              s\<lparr>nullifiers := insert (nullifier_key H s c) (nullifiers s),
                commitments := rest\<rparr>)"
      by (simp add: withdraw_wf_cases [OF wf])
    have "get_private_balance (snd (withdraw H s 0 recipient)) = get_private_balance s - c_amount c"
      by (simp add: w get_private_balance_def dict_values_def cs)
    with w show "withdraw H s 0 recipient
              = (Inr ''withdraw_tx_signature'',
                 s\<lparr>nullifiers := insert (nullifier_key H s c) (nullifiers s),
                   commitments := rest\<rparr>) \<and>
            get_private_balance (snd (withdraw H s 0 recipient))
              = get_private_balance s - c_amount c"
      by simp
  qed
  have spent: "nullifier_key H s c \<in> nullifiers s \<longrightarrow>
            withdraw H s 0 recipient = (Inl AlreadySpent, s)"
    using f by (simp add: withdraw_cases)
  have un: "unspent H s \<longrightarrow> nullifier_key H s c \<notin> nullifiers s"
    by (simp add: unspent_def cs)
  from f ok spent un show ?thesis by blast
qed

theorem withdraw_zero_amount_witness:
  "withdraw H0 (run H0 client0 [Deposit 1000000000 nonce1, Deposit 500000000 nonce2]) 0 ''recipient''
     = (Inr ''withdraw_tx_signature'',
        run H0 client0 [Deposit 1000000000 nonce1, Deposit 500000000 nonce2]
          \<lparr>nullifiers := {bytes_hex (H0 (H0 (encode (get_ghost_identifier client0)
                              @ to_bytes_le 8 1000000000 @ nonce1) @ sk0))},
           commitments :=
             [(bytes_hex (H0 (encode (get_ghost_identifier client0) @ to_bytes_le 8 500000000 @ nonce2)),
               \<lparr>c_value = H0 (encode (get_ghost_identifier client0) @ to_bytes_le 8 500000000 @ nonce2),
                c_nonce = nonce2, c_amount = 500000000\<rparr>)]\<rparr>) \<and>
   get_private_balance (snd (withdraw H0
       (run H0 client0 [Deposit 1000000000 nonce1, Deposit 500000000 nonce2]) 0 ''recipient''))
     = 500000000 \<and>
   withdraw H0 (run H0 client0
       [Deposit 1000000000 nonce1, Withdraw 1000000000 ''recipient'', Deposit 1000000000 nonce1])
     0 ''recipient''
     = (Inl AlreadySpent,
        run H0 client0
          [Deposit 1000000000 nonce1, Withdraw 1000000000 ''recipient'', Deposit 1000000000 nonce1])"
proof -
  let ?xs = "[Deposit 1000000000 nonce1, Deposit 500000000 nonce2]"
  let ?s = "run H0 client0 ?xs"
  let ?v1 = "H0 (encode (get_ghost_identifier client0) @ to_bytes_le 8 1000000000 @ nonce1)"
  let ?v2 = "H0 (encode (get_ghost_identifier client0) @ to_bytes_le 8 500000000 @ nonce2)"
  let ?c1 = "\<lparr>c_value = ?v1, c_nonce = nonce1, c_amount = 1000000000\<rparr>"
  let ?c2 = "\<lparr>c_value = ?v2, c_nonce = nonce2, c_amount = 500000000\<rparr>"
  have wf: "wf_client ?s"
    unfolding client0_def by (rule wf_client_run) (rule wf_client_init)
  have "no_collision H0 (GhostClient_init sk0 pk0) ?xs" by code_simp
  then have un: "unspent H0 ?s"
    unfolding client0_def by (rule reachable_unspent)
  have cs: "commitments ?s = (bytes_hex ?v1, ?c1) # [(bytes_hex ?v2, ?c2)]"
    by code_simp
  have n: "nullifiers ?s = {}" by code_simp
  have nk: "nullifier_key H0 ?s ?c1 = bytes_hex (H0 (?v1 @ sk0))"
    by (simp only: nullifier_key_run)
       (simp add: nullifier_key_eq client0_def GhostClient_init_def)
  have b: "get_private_balance ?s = 1500000000" by code_simp
  from withdraw_zero_amount [OF wf cs, of H0 "''recipient''"] un
  have w: "withdraw H0 ?s 0 ''recipient''
             = (Inr ''withdraw_tx_signature'',
                ?s\<lparr>nullifiers := insert (nullifier_key H0 ?s ?c1) (nullifiers ?s),
                   commitments := [(bytes_hex ?v2, ?c2)]\<rparr>)"
    and bal: "get_private_balance (snd (withdraw H0 ?s 0 ''recipient''))
                = get_private_balance ?s - c_amount ?c1"
    by blast+
  have c: "(1500000000::int) - c_amount ?c1 = 500000000" by simp
  from w have 1: "withdraw H0 ?s 0 ''recipient''
             = (Inr ''withdraw_tx_signature'',
                ?s\<lparr>nullifiers := {bytes_hex (H0 (?v1 @ sk0))},
                   commitments := [(bytes_hex ?v2, ?c2)]\<rparr>)"
    by (simp only: n nk)
  from bal have 2: "get_private_balance (snd (withdraw H0 ?s 0 ''recipient'')) = 500000000"
    by (simp only: b c)
  let ?t = "run H0 client0
       [Deposit 1000000000 nonce1, Withdraw 1000000000 ''recipient'', Deposit 1000000000 nonce1]"
  have wft: "wf_client ?t"
    unfolding client0_def by (rule wf_client_run) (rule wf_client_init)
  have cst: "commitments ?t = (bytes_hex ?v1, ?c1) # []" by code_simp
  have spent: "nullifier_key H0 ?t ?c1 \<in> nullifiers ?t" by code_simp
  from withdraw_zero_amount [OF wft cst, of H0 "''recipient''"] spent
  have 3: "withdraw H0 ?t 0 ''recipient'' = (Inl AlreadySpent, ?t)"
    by blast
  show ?thesis by (intro conjI) (rule 1, rule 2, rule 3)
qed

text \<open>
  A client with one open commitment on which the withdrawal of \<open>0\<close> fails: the commitment
  was spent and then deposited again with the same nonce.
\<close>

theorem withdraw_zero_already_spent_counterexample:
  "commitments (run H0 client0
       [Deposit 1000000000 nonce1, Withdraw 1000000000 ''recipient'', Deposit 1000000000 nonce1])
     \<noteq> [] \<and>
   fst (withdraw H0 (run H0 client0
       [Deposit 1000000000 nonce1, Withdraw 1000000000 ''recipient'', Deposit 1000000000 nonce1])
     0 ''recipient'') = Inl AlreadySpent"
  by code_simp

subsection \<open>C1: no commitment is spent twice\<close>

text \<open>
  C1 (as the code has it). Take any sequence of calls on a new client, then a withdrawal
  (or private transfer, which is the same function) that succeeds and consumes the
  commitment \<open>c\<close>, then any further sequence of calls. In the state reached, every
  withdrawal that selects a commitment with the value of \<open>c\<close> raises
  "Commitment already spent" and changes nothing: no second withdrawal consumes \<open>c\<close>.
  If, moreover, the deposits of the whole sequence created commitments with pairwise
  distinct nullifier keys (\<open>no_collision\<close>: no amount came twice with the same nonce and the
  hash did not collide), then no open commitment of the state reached has its nullifier
  recorded, and no open commitment has the value of \<open>c\<close>. Under that same condition every
  state reached from a new client has no open commitment whose nullifier is recorded.
\<close>

theorem no_double_spend:
  assumes s1: "s1 = run H (GhostClient_init sk pk) xs1"
    and w: "withdraw H s1 amount recipient = (Inr sig, s2)"
    and f: "find (\<lambda>c. amount \<le> c_amount c) (dict_values (commitments s1)) = Some c"
    and s3: "s3 = run H s2 xs2"
  shows "(\<forall>amount' recipient' c'.
            find (\<lambda>c. amount' \<le> c_amount c) (dict_values (commitments s3)) = Some c' \<and>
            c_value c' = c_value c
              \<longrightarrow> withdraw H s3 amount' recipient' = (Inl AlreadySpent, s3)) \<and>
         (no_collision H (GhostClient_init sk pk) (xs1 @ Withdraw amount recipient # xs2)
            \<longrightarrow> unspent H s3 \<and> (\<forall>kv \<in> set (commitments s3). c_value (snd kv) \<noteq> c_value c)) \<and>
         (\<forall>xs. no_collision H (GhostClient_init sk pk) xs
            \<longrightarrow> unspent H (run H (GhostClient_init sk pk) xs))"
proof -
  from w f have n2: "nullifier_key H s1 c \<in> nullifiers s2" and k2: "private_key s2 = private_key s1"
    by (auto simp: withdraw_cases split: if_splits)
  from n2 run_nullifiers_mono [of s2 H xs2] have n3: "nullifier_key H s1 c \<in> nullifiers s3"
    unfolding s3 by blast
  have k3: "private_key s3 = private_key s1"
    unfolding s3 by (simp add: run_private_key k2)
  have 1: "\<forall>amount' recipient' c'.
            find (\<lambda>c. amount' \<le> c_amount c) (dict_values (commitments s3)) = Some c' \<and>
            c_value c' = c_value c
              \<longrightarrow> withdraw H s3 amount' recipient' = (Inl AlreadySpent, s3)"
  proof (intro allI impI)
    fix amount' recipient' c'
    assume a: "find (\<lambda>c. amount' \<le> c_amount c) (dict_values (commitments s3)) = Some c' \<and>
               c_value c' = c_value c"
    then have "nullifier_key H s3 c' = nullifier_key H s1 c"
      using k3 by (simp add: nullifier_key_eq)
    with n3 have "nullifier_key H s3 c' \<in> nullifiers s3" by simp
    with a show "withdraw H s3 amount' recipient' = (Inl AlreadySpent, s3)"
      by (simp add: withdraw_cases)
  qed
  have 2: "no_collision H (GhostClient_init sk pk) (xs1 @ Withdraw amount recipient # xs2)
            \<longrightarrow> unspent H s3 \<and> (\<forall>kv \<in> set (commitments s3). c_value (snd kv) \<noteq> c_value c)"
  proof
    assume nc: "no_collision H (GhostClient_init sk pk) (xs1 @ Withdraw amount recipient # xs2)"
    have "run H (GhostClient_init sk pk) (xs1 @ Withdraw amount recipient # xs2) = s3"
      by (simp add: run_append s1 [symmetric] w s3)
    with reachable_unspent [OF nc] have un: "unspent H s3" by simp
    have "\<forall>kv \<in> set (commitments s3). c_value (snd kv) \<noteq> c_value c"
    proof
      fix kv assume kv: "kv \<in> set (commitments s3)"
      show "c_value (snd kv) \<noteq> c_value c"
      proof
        assume "c_value (snd kv) = c_value c"
        then have "nullifier_key H s3 (snd kv) = nullifier_key H s1 c"
          using k3 by (simp add: nullifier_key_eq)
        with n3 have "nullifier_key H s3 (snd kv) \<in> nullifiers s3" by simp
        with un kv show False by (simp add: unspent_def list_all_iff)
      qed
    qed
    with un show "unspent H s3 \<and> (\<forall>kv \<in> set (commitments s3). c_value (snd kv) \<noteq> c_value c)"
      by simp
  qed
  have 3: "\<forall>xs. no_collision H (GhostClient_init sk pk) xs
            \<longrightarrow> unspent H (run H (GhostClient_init sk pk) xs)"
    by (simp add: reachable_unspent)
  from 1 2 3 show ?thesis by blast
qed

theorem no_double_spend_witness:
  "withdraw H0 (run H0 client0
       [Deposit 1000000000 nonce1, Withdraw 1000000000 ''recipient'', Deposit 1000000000 nonce1])
     1000000000 ''recipient''
     = (Inl AlreadySpent,
        run H0 client0
          [Deposit 1000000000 nonce1, Withdraw 1000000000 ''recipient'', Deposit 1000000000 nonce1]) \<and>
   unspent H0 (run H0 client0
       [Deposit 1000000000 nonce1, Deposit 500000000 nonce2, Withdraw 500000000 ''recipient'',
        Deposit 1000000000 nonce2]) \<and>
   c_value \<lparr>c_value = H0 (encode (get_ghost_identifier client0) @ to_bytes_le 8 1000000000 @ nonce1),
            c_nonce = nonce1, c_amount = 1000000000\<rparr>
     \<notin> set (map c_value (dict_values (commitments (run H0 client0
       [Deposit 1000000000 nonce1, Deposit 500000000 nonce2, Withdraw 500000000 ''recipient'',
        Deposit 1000000000 nonce2]))))"
proof -
  let ?i = "GhostClient_init sk0 pk0"
  let ?r = "''recipient''"
  let ?c1 = "\<lparr>c_value = H0 (encode (get_ghost_identifier client0) @ to_bytes_le 8 1000000000 @ nonce1),
             c_nonce = nonce1, c_amount = 1000000000\<rparr>"
  let ?a1 = "run H0 ?i [Deposit 1000000000 nonce1]"
  let ?a2 = "snd (withdraw H0 ?a1 1000000000 ?r)"
  let ?a3 = "run H0 ?a2 [Deposit 1000000000 nonce1]"
  have aw: "withdraw H0 ?a1 1000000000 ?r
              = (fst (withdraw H0 ?a1 1000000000 ?r), ?a2)" by simp
  have ar: "fst (withdraw H0 ?a1 1000000000 ?r) = Inr ''withdraw_tx_signature''" by code_simp
  have af: "find (\<lambda>c. 1000000000 \<le> c_amount c) (dict_values (commitments ?a1)) = Some ?c1"
    by code_simp
  have af3: "find (\<lambda>c. 1000000000 \<le> c_amount c) (dict_values (commitments ?a3)) = Some ?c1"
    by code_simp
  have ae: "run H0 client0
       [Deposit 1000000000 nonce1, Withdraw 1000000000 ?r, Deposit 1000000000 nonce1] = ?a3"
    by (simp only: run.simps step.simps client0_def)
  from no_double_spend [OF refl aw [unfolded ar] af refl, of "[Deposit 1000000000 nonce1]"] af3
  have 1: "withdraw H0 ?a3 1000000000 ?r = (Inl AlreadySpent, ?a3)"
    by blast
  let ?xs1 = "[Deposit 1000000000 nonce1, Deposit 500000000 nonce2]"
  let ?xs2 = "[Deposit 1000000000 nonce2]"
  let ?b1 = "run H0 ?i ?xs1"
  let ?b2 = "snd (withdraw H0 ?b1 500000000 ?r)"
  let ?b3 = "run H0 ?b2 ?xs2"
  have bw: "withdraw H0 ?b1 500000000 ?r
              = (fst (withdraw H0 ?b1 500000000 ?r), ?b2)" by simp
  have br: "fst (withdraw H0 ?b1 500000000 ?r) = Inr ''withdraw_tx_signature''" by code_simp
  have bf: "find (\<lambda>c. 500000000 \<le> c_amount c) (dict_values (commitments ?b1)) = Some ?c1"
    by code_simp
  have nc: "no_collision H0 ?i (?xs1 @ Withdraw 500000000 ?r # ?xs2)" by code_simp
  have be: "run H0 client0
       [Deposit 1000000000 nonce1, Deposit 500000000 nonce2, Withdraw 500000000 ?r,
        Deposit 1000000000 nonce2] = ?b3"
    by (simp only: run.simps step.simps client0_def)
  from no_double_spend [OF refl bw [unfolded br] bf refl, of ?xs2] nc
  have 2: "unspent H0 ?b3 \<and> (\<forall>kv \<in> set (commitments ?b3). c_value (snd kv) \<noteq> c_value ?c1)"
    by blast
  from 2 have 2: "unspent H0 ?b3"
    and "\<forall>kv \<in> set (commitments ?b3). c_value (snd kv) \<noteq> c_value ?c1"
    by blast+
  then have 3: "c_value ?c1 \<notin> set (map c_value (dict_values (commitments ?b3)))"
    unfolding dict_values_def by (auto simp del: run.simps)
  show ?thesis
    unfolding ae be by (intro conjI) (rule 1, rule 2, rule 3)
qed

text \<open>
  Without the condition the last part fails: after a deposit, its withdrawal and a second
  deposit of the same amount with the same nonce, the commitment is open and its nullifier
  is recorded (for every hash, by \<open>redeposit_reopens\<close>).
\<close>

theorem respent_commitment_counterexample:
  "\<not> unspent H0 (run H0 client0
       [Deposit 1000000000 nonce1, Withdraw 1000000000 ''recipient'', Deposit 1000000000 nonce1]) \<and>
   dict_values (commitments (run H0 client0
       [Deposit 1000000000 nonce1, Withdraw 1000000000 ''recipient'', Deposit 1000000000 nonce1]))
     = [\<lparr>c_value = H0 (encode (get_ghost_identifier client0) @ to_bytes_le 8 1000000000 @ nonce1),
         c_nonce = nonce1, c_amount = 1000000000\<rparr>] \<and>
   nullifier_key H0 client0
       \<lparr>c_value = H0 (encode (get_ghost_identifier client0) @ to_bytes_le 8 1000000000 @ nonce1),
        c_nonce = nonce1, c_amount = 1000000000\<rparr>
     \<in> nullifiers (run H0 client0
       [Deposit 1000000000 nonce1, Withdraw 1000000000 ''recipient'', Deposit 1000000000 nonce1])"
  by code_simp

end
